theory Spec2Isabelle
  imports Main "HOL-Library.Word"
begin

section \<open>Data model\<close>

text \<open>
  The pixel of \<^verbatim>\<open>ppmio.cpp\<close> is a struct of three \<^verbatim>\<open>unsigned char\<close> channels; an image is a
  \<^verbatim>\<open>std::vector<std::vector<RGB>>\<close>, a list of rows. Nothing in the type makes the rows
  equally long, so rectangularity is a predicate of its own.
\<close>

type_synonym byte = "8 word"

record RGB =
  r :: byte
  g :: byte
  b :: byte

type_synonym image = "RGB list list"

definition img_height :: "'a list list \<Rightarrow> nat" where
  "img_height img = length img"

definition img_width :: "'a list list \<Rightarrow> nat" where
  "img_width img = (case img of [] \<Rightarrow> 0 | row0 # _ \<Rightarrow> length row0)"

definition rectangular :: "'a list list \<Rightarrow> bool" where
  "rectangular img = list_all (\<lambda>row. length row = img_width img) img"

section \<open>Undefined behaviour and loops\<close>

text \<open>
  \<^verbatim>\<open>operator[]\<close> of a vector does not check its index. An access outside the vector is
  undefined behaviour in the source; the model makes it a value, so that a transform
  either returns an image or names the first access that left the buffer.
  \<^verbatim>\<open>RowOOB i\<close> is \<^verbatim>\<open>image[i]\<close> with no row \<open>i\<close>, \<^verbatim>\<open>ColOOB i j\<close> is \<^verbatim>\<open>image[i][j]\<close> with
  no column \<open>j\<close> in row \<open>i\<close>.
\<close>

datatype fault = RowOOB int | ColOOB int int | SignedOverflow | IndeterminateValue

definition row_at :: "'a list list \<Rightarrow> int \<Rightarrow> fault + 'a list" where
  "row_at img i =
     (if 0 \<le> i \<and> i < int (length img) then Inr (img ! nat i) else Inl (RowOOB i))"

definition px_at :: "'a list list \<Rightarrow> int \<Rightarrow> int \<Rightarrow> fault + 'a" where
  "px_at img i j =
     (case row_at img i of
        Inl e \<Rightarrow> Inl e
      | Inr row \<Rightarrow>
          if 0 \<le> j \<and> j < int (length row) then Inr (row ! nat j) else Inl (ColOOB i j))"

definition px_set :: "'a list list \<Rightarrow> int \<Rightarrow> int \<Rightarrow> 'a \<Rightarrow> fault + 'a list list" where
  "px_set img i j p =
     (case row_at img i of
        Inl e \<Rightarrow> Inl e
      | Inr row \<Rightarrow>
          if 0 \<le> j \<and> j < int (length row)
          then Inr (img[nat i := row[nat j := p]])
          else Inl (ColOOB i j))"

text \<open>
  A counting loop \<^verbatim>\<open>for (int i = a; i < b; ++i) body\<close> is \<open>for_each [a..b - 1] body\<close>:
  the body runs on each index in order, threads the state, and the first failure ends
  the loop.
\<close>

fun for_each :: "'i list \<Rightarrow> ('i \<Rightarrow> 's \<Rightarrow> 'e + 's) \<Rightarrow> 's \<Rightarrow> 'e + 's" where
  "for_each [] body s = Inr s"
| "for_each (i # is) body s =
     (case body i s of Inl e \<Rightarrow> Inl e | Inr s' \<Rightarrow> for_each is body s')"

section \<open>The transforms of ppmio.cpp\<close>

subsection \<open>grayscale, invert, contrast\<close>

text \<open>
  The channels are promoted to \<^verbatim>\<open>int\<close> before the arithmetic and the result is stored
  back into an \<^verbatim>\<open>unsigned char\<close>, which is \<open>word_of_int\<close>.
\<close>

definition grayscale_pixel :: "RGB \<Rightarrow> RGB" where
  "grayscale_pixel pixel =
     (let gray = (word_of_int ((uint (r pixel) + uint (g pixel) + uint (b pixel)) div 3) :: byte)
      in \<lparr>r = gray, g = gray, b = gray\<rparr>)"

definition grayscale :: "image \<Rightarrow> image" where
  "grayscale img = map (map grayscale_pixel) img"

definition invert_pixel :: "RGB \<Rightarrow> RGB" where
  "invert_pixel pixel =
     \<lparr>r = word_of_int (255 - uint (r pixel)),
      g = word_of_int (255 - uint (g pixel)),
      b = word_of_int (255 - uint (b pixel))\<rparr>"

definition invert :: "image \<Rightarrow> image" where
  "invert img = map (map invert_pixel) img"

text \<open>
  \<^verbatim>\<open>contrast\<close> computes \<^verbatim>\<open>static_cast<int>((pixel.r - 128) * factor + 128)\<close> in single
  precision. Floating point is not modelled: the parameter \<open>scaled\<close> stands for the map
  from \<^verbatim>\<open>pixel.r - 128\<close> to that \<^verbatim>\<open>int\<close>, and the clamp and the store are the source's.
\<close>

definition contrast_channel :: "(int \<Rightarrow> int) \<Rightarrow> byte \<Rightarrow> byte" where
  "contrast_channel scaled v = word_of_int (min 255 (max 0 (scaled (uint v - 128))))"

definition contrast_pixel :: "(int \<Rightarrow> int) \<Rightarrow> RGB \<Rightarrow> RGB" where
  "contrast_pixel scaled pixel =
     \<lparr>r = contrast_channel scaled (r pixel),
      g = contrast_channel scaled (g pixel),
      b = contrast_channel scaled (b pixel)\<rparr>"

definition contrast :: "(int \<Rightarrow> int) \<Rightarrow> image \<Rightarrow> image" where
  "contrast scaled img = map (map (contrast_pixel scaled)) img"

subsection \<open>blur\<close>

text \<open>
  \<open>blur_sum\<close> is the pair of loops over \<^verbatim>\<open>x\<close> and \<^verbatim>\<open>y\<close> that adds the nine channel
  triples of \<^verbatim>\<open>temp\<close> around \<open>(i, j)\<close>. The sums are at most \<open>9 * 255\<close>, so \<^verbatim>\<open>sum / 9\<close>,
  which truncates in C++, is \<open>div\<close>.
\<close>

definition blur_sum :: "image \<Rightarrow> int \<Rightarrow> int \<Rightarrow> fault + (int \<times> int \<times> int)" where
  "blur_sum temp i j =
     for_each [-1..1] (\<lambda>x.
       for_each [-1..1] (\<lambda>y (sum_r, sum_g, sum_b).
         case px_at temp (i + x) (j + y) of
           Inl e \<Rightarrow> Inl e
         | Inr p \<Rightarrow> Inr (sum_r + uint (r p), sum_g + uint (g p), sum_b + uint (b p))))
       (0, 0, 0)"

definition blur :: "image \<Rightarrow> fault + image" where
  "blur img =
     (let temp = img;
          height = int (length img)
      in case row_at img 0 of
           Inl e \<Rightarrow> Inl e
         | Inr row0 \<Rightarrow>
             let width = int (length row0)
             in for_each [1..height - 2] (\<lambda>i.
                  for_each [1..width - 2] (\<lambda>j cur.
                    case blur_sum temp i j of
                      Inl e \<Rightarrow> Inl e
                    | Inr (sum_r, sum_g, sum_b) \<Rightarrow>
                        px_set cur i j
                          \<lparr>r = word_of_int (sum_r div 9),
                           g = word_of_int (sum_g div 9),
                           b = word_of_int (sum_b div 9)\<rparr>))
                  img)"

subsection \<open>mirror\<close>

text \<open>
  \<^verbatim>\<open>mirror\<close> prints pixels of row 0 before and after reversing the rows. The printed text
  is not modelled, the reads are: \<open>print_row0 img js\<close> reads \<^verbatim>\<open>image[0][j]\<close> for each
  \<open>j\<close> of \<open>js\<close>. The first loop runs \<^verbatim>\<open>j\<close> from 0 below \<^verbatim>\<open>std::min(5, width)\<close>, the second
  from \<^verbatim>\<open>width - 5\<close> below \<^verbatim>\<open>width\<close>.
\<close>

definition print_row0 :: "image \<Rightarrow> int list \<Rightarrow> fault + unit" where
  "print_row0 img js =
     for_each js (\<lambda>j u. case px_at img 0 j of Inl e \<Rightarrow> Inl e | Inr p \<Rightarrow> Inr ()) ()"

definition print_ends :: "image \<Rightarrow> int \<Rightarrow> fault + unit" where
  "print_ends img width =
     (case print_row0 img [0..min 5 width - 1] of
        Inl e \<Rightarrow> Inl e
      | Inr u \<Rightarrow> print_row0 img [width - 5..width - 1])"

definition mirror :: "image \<Rightarrow> fault + image" where
  "mirror img =
     (let height = int (length img)
      in case row_at img 0 of
           Inl e \<Rightarrow> Inl e
         | Inr row0 \<Rightarrow>
             let width = int (length row0)
             in (case print_ends img width of
                   Inl e \<Rightarrow> Inl e
                 | Inr u \<Rightarrow>
                     (case for_each [0..height - 1] (\<lambda>i cur.
                             (case row_at cur i of
                                Inl e \<Rightarrow> Inl e
                              | Inr row \<Rightarrow> Inr (cur[nat i := rev row])))
                           img of
                        Inl e \<Rightarrow> Inl e
                      | Inr img' \<Rightarrow>
                          (case print_ends img' width of
                             Inl e \<Rightarrow> Inl e
                           | Inr u \<Rightarrow> Inr img'))))"

subsection \<open>compress\<close>

definition compress :: "image \<Rightarrow> fault + image" where
  "compress img =
     (let height = int (length img)
      in case row_at img 0 of
           Inl e \<Rightarrow> Inl e
         | Inr row0 \<Rightarrow>
             let width = int (length row0);
                 new_height = height div 2;
                 new_width = width div 2;
                 compressed =
                   replicate (nat new_height)
                     (replicate (nat new_width) \<lparr>r = 0, g = 0, b = 0\<rparr>)
             in for_each [0..new_height - 1] (\<lambda>i.
                  for_each [0..new_width - 1] (\<lambda>j comp.
                    case px_at img (2 * i + 1) (2 * j + 1) of
                      Inl e \<Rightarrow> Inl e
                    | Inr p \<Rightarrow> px_set comp i j p))
                  compressed)"

section \<open>Input streams and files\<close>

text \<open>
  A \<^verbatim>\<open>std::ifstream\<close> opened with \<^verbatim>\<open>std::ios::binary\<close> is the bytes not yet read and the
  two state bits the code can observe; \<^verbatim>\<open>badbit\<close> is never set by the calls below.
  \<^verbatim>\<open>operator!\<close> and the conversion to \<^verbatim>\<open>bool\<close> test \<open>failbit\<close>, \<^verbatim>\<open>good()\<close> tests both bits.
\<close>

record istream =
  buf :: "byte list"
  eofbit :: bool
  failbit :: bool

definition good :: "istream \<Rightarrow> bool" where
  "good s = (\<not> eofbit s \<and> \<not> failbit s)"

text \<open>A stream freshly opened on some bytes.\<close>

definition stream_of :: "byte list \<Rightarrow> istream" where
  "stream_of content = \<lparr>buf = content, eofbit = False, failbit = False\<rparr>"

definition bytes :: "string \<Rightarrow> byte list" where
  "bytes s = map of_char s"

text \<open>The classic locale: space, and the control characters from tab to carriage return.\<close>

definition isspace :: "byte \<Rightarrow> bool" where
  "isspace c = (c = 32 \<or> c = 9 \<or> c = 10 \<or> c = 11 \<or> c = 12 \<or> c = 13)"

definition isdigit :: "byte \<Rightarrow> bool" where
  "isdigit c = (48 \<le> uint c \<and> uint c \<le> 57)"

definition INT_MAX :: int where
  "INT_MAX = 2147483647"

definition INT_MIN :: int where
  "INT_MIN = - 2147483648"

text \<open>
  Every input function first constructs a sentry. A stream that is not good gets
  \<open>failbit\<close> and the function does nothing. A formatted extraction (\<open>noskipws\<close> false)
  then skips white space, and meeting the end of the input there sets both bits.
\<close>

definition sentry :: "bool \<Rightarrow> istream \<Rightarrow> istream \<times> bool" where
  "sentry noskipws s =
     (if \<not> good s then (s\<lparr>failbit := True\<rparr>, False)
      else if noskipws then (s, True)
      else (let rest = dropWhile isspace (buf s)
            in if rest = [] then (s\<lparr>buf := [], eofbit := True, failbit := True\<rparr>, False)
               else (s\<lparr>buf := rest\<rparr>, True)))"

text \<open>\<^verbatim>\<open>file >> str\<close> for a \<^verbatim>\<open>std::string\<close>: the characters up to the next white space.\<close>

definition extract_string :: "istream \<Rightarrow> byte list \<Rightarrow> istream \<times> byte list" where
  "extract_string s str =
     (case sentry False s of
        (s1, False) \<Rightarrow> (s1, str)
      | (s1, True) \<Rightarrow>
          (let tok = takeWhile (\<lambda>c. \<not> isspace c) (buf s1);
               rest = dropWhile (\<lambda>c. \<not> isspace c) (buf s1)
           in (if rest = [] then s1\<lparr>buf := [], eofbit := True\<rparr> else s1\<lparr>buf := rest\<rparr>, tok)))"

text \<open>
  \<^verbatim>\<open>std::getline(file, line)\<close>: the characters up to the next newline, which is read and
  dropped. Reaching the end of the input sets \<open>eofbit\<close>, and \<open>failbit\<close> too when nothing
  at all was read.
\<close>

definition getline :: "istream \<Rightarrow> byte list \<Rightarrow> istream \<times> byte list" where
  "getline s line =
     (case sentry True s of
        (s1, False) \<Rightarrow> (s1, line)
      | (s1, True) \<Rightarrow>
          (let text = takeWhile (\<lambda>c. c \<noteq> 10) (buf s1)
           in case dropWhile (\<lambda>c. c \<noteq> 10) (buf s1) of
                [] \<Rightarrow> (s1\<lparr>buf := [], eofbit := True, failbit := (text = [])\<rparr>, text)
              | newline # rest \<Rightarrow> (s1\<lparr>buf := rest\<rparr>, text)))"

text \<open>
  \<^verbatim>\<open>file >> n\<close> for an \<^verbatim>\<open>int\<close>: an optional sign and the longest run of decimal digits.
  With no digit the value stored is 0; a value outside \<^verbatim>\<open>int\<close> is stored as the nearest
  bound; both set \<open>failbit\<close>. When the sentry fails the variable keeps its value.
\<close>

definition decimal :: "byte list \<Rightarrow> int" where
  "decimal ds = foldl (\<lambda>acc c. 10 * acc + (uint c - 48)) 0 ds"

definition split_sign :: "byte list \<Rightarrow> bool \<times> byte list" where
  "split_sign cs =
     (case cs of
        [] \<Rightarrow> (False, [])
      | c # cs' \<Rightarrow>
          if c = 45 then (True, cs') else if c = 43 then (False, cs') else (False, cs))"

definition extract_int :: "istream \<Rightarrow> int \<Rightarrow> istream \<times> int" where
  "extract_int s v =
     (case sentry False s of
        (s1, False) \<Rightarrow> (s1, v)
      | (s1, True) \<Rightarrow>
          (case split_sign (buf s1) of
             (negative, body) \<Rightarrow>
               (let ds = takeWhile isdigit body;
                    rest = dropWhile isdigit body;
                    s2 = (if rest = [] then s1\<lparr>buf := [], eofbit := True\<rparr>
                          else s1\<lparr>buf := rest\<rparr>);
                    n = (if negative then - decimal ds else decimal ds)
                in if ds = [] then (s2\<lparr>failbit := True\<rparr>, 0)
                   else if INT_MAX < n then (s2\<lparr>failbit := True\<rparr>, INT_MAX)
                   else if n < INT_MIN then (s2\<lparr>failbit := True\<rparr>, INT_MIN)
                   else (s2, n))))"

text \<open>\<^verbatim>\<open>file.peek()\<close>, with \<open>None\<close> for \<^verbatim>\<open>EOF\<close>, and \<^verbatim>\<open>file.get()\<close>, the character dropped.\<close>

definition peek :: "istream \<Rightarrow> istream \<times> byte option" where
  "peek s =
     (case sentry True s of
        (s1, False) \<Rightarrow> (s1, None)
      | (s1, True) \<Rightarrow>
          (case buf s1 of [] \<Rightarrow> (s1\<lparr>eofbit := True\<rparr>, None) | c # cs \<Rightarrow> (s1, Some c)))"

definition get :: "istream \<Rightarrow> istream" where
  "get s =
     (case sentry True s of
        (s1, False) \<Rightarrow> s1
      | (s1, True) \<Rightarrow>
          (case buf s1 of
             [] \<Rightarrow> s1\<lparr>eofbit := True, failbit := True\<rparr>
           | c # cs \<Rightarrow> s1\<lparr>buf := cs\<rparr>))"

text \<open>\<^verbatim>\<open>file.ignore()\<close> drops one character.\<close>

definition ignore :: "istream \<Rightarrow> istream" where
  "ignore s =
     (case sentry True s of
        (s1, False) \<Rightarrow> s1
      | (s1, True) \<Rightarrow>
          (case buf s1 of [] \<Rightarrow> s1\<lparr>eofbit := True\<rparr> | c # cs \<Rightarrow> s1\<lparr>buf := cs\<rparr>))"

text \<open>
  \<^verbatim>\<open>file.read(p, n)\<close> returns the bytes it stored, so \<^verbatim>\<open>file.gcount()\<close> is their number.
  Fewer than \<open>n\<close> sets both bits.
\<close>

definition read :: "istream \<Rightarrow> nat \<Rightarrow> istream \<times> byte list" where
  "read s n =
     (case sentry True s of
        (s1, False) \<Rightarrow> (s1, [])
      | (s1, True) \<Rightarrow>
          (let got = take n (buf s1);
               s2 = s1\<lparr>buf := drop n (buf s1)\<rparr>
           in if length got < n then (s2\<lparr>eofbit := True, failbit := True\<rparr>, got)
              else (s2, got)))"

text \<open>
  The file system maps a path to what is there. Opening for reading needs a regular
  file. Opening for writing, as the constructor of \<^verbatim>\<open>std::ofstream\<close> does, creates the file
  or truncates it to no bytes. \<open>Unopenable\<close> stands for a path that can be opened neither
  way. Writes to an open file are taken to succeed.
\<close>

datatype node = Missing | Regular "byte list" | Unopenable

type_synonym filesystem = "string \<Rightarrow> node"

definition open_in :: "filesystem \<Rightarrow> string \<Rightarrow> istream option" where
  "open_in fs filename =
     (case fs filename of
        Regular content \<Rightarrow> Some (stream_of content)
      | _ \<Rightarrow> None)"

definition open_out :: "filesystem \<Rightarrow> string \<Rightarrow> filesystem option" where
  "open_out fs filename =
     (case fs filename of
        Unopenable \<Rightarrow> None
      | _ \<Rightarrow> Some (fs(filename := Regular [])))"

definition write_bytes :: "filesystem \<Rightarrow> string \<Rightarrow> byte list \<Rightarrow> filesystem" where
  "write_bytes fs filename bs =
     (case fs filename of
        Regular content \<Rightarrow> fs(filename := Regular (content @ bs))
      | _ \<Rightarrow> fs)"

section \<open>The codec of ppmio.cpp\<close>

text \<open>
  The code throws \<^verbatim>\<open>std::runtime_error\<close> with a message; each message is a constructor.
  \<open>LengthError\<close> is the \<^verbatim>\<open>std::length_error\<close> of a vector constructed with a negative
  size. A call ends with a value, with an exception, or in undefined behaviour.

  The \<^verbatim>\<open>int\<close> variables of the code are integers here. A number read from a file is
  within \<^verbatim>\<open>int\<close> by \<open>extract_int\<close>; the products \<^verbatim>\<open>width * 3\<close> and
  \<^verbatim>\<open>width * height * 3 + 10\<close> are the places where the code can overflow, and there the
  model ends in \<open>SignedOverflow\<close>. The size of a vector is taken to fit an \<^verbatim>\<open>int\<close>, and
  an allocation of a size that is not negative is taken to succeed. What the functions
  print to \<^verbatim>\<open>std::cout\<close> is left out; the reads of the buffer made for printing are kept.
\<close>

datatype exn =
    CannotOpen string
  | InvalidPPMFormat "byte list"
  | HeaderError
  | MaxColorError
  | UnsupportedMax int
  | PixelDataError int
  | EmptyImage
  | VerifyOpenError string
  | SizeMismatch int int
  | LengthError

datatype failure = Raise exn | UB fault

subsection \<open>readPPM\<close>

text \<open>
  \<^verbatim>\<open>std::istringstream iss(line); iss >> width >> height\<close>, and the same for one number.
  A failed extraction may have stored a value, but the loop then reads another line and
  both variables are stored again before they are used.
\<close>

definition parse_two_ints :: "byte list \<Rightarrow> (int \<times> int) option" where
  "parse_two_ints line =
     (let iss = stream_of line;
          (iss1, width) = extract_int iss 0;
          (iss2, height) = extract_int iss1 0
      in if failbit iss2 then None else Some (width, height))"

definition parse_one_int :: "byte list \<Rightarrow> int option" where
  "parse_one_int line =
     (let iss = stream_of line;
          (iss1, max_val) = extract_int iss 0
      in if failbit iss1 then None else Some max_val)"

lemma getline_consumes:
  "getline s line = (s1, text) \<Longrightarrow> \<not> failbit s1 \<Longrightarrow> length (buf s1) < length (buf s)"
proof -
  assume g: "getline s line = (s1, text)" and ok: "\<not> failbit s1"
  show ?thesis
  proof (cases "good s")
    case False
    with g ok show ?thesis by (auto simp add: getline_def sentry_def)
  next
    case True
    show ?thesis
    proof (cases "dropWhile (\<lambda>c. c \<noteq> 10) (buf s)")
      case Nil
      with g ok True have "buf s1 = []" "takeWhile (\<lambda>c. c \<noteq> 10) (buf s) \<noteq> []"
        by (auto simp add: getline_def sentry_def Let_def)
      then show ?thesis by (cases "buf s") auto
    next
      case (Cons c cs)
      with g True have "buf s1 = cs" by (auto simp add: getline_def sentry_def Let_def)
      moreover have "length (dropWhile (\<lambda>c. c \<noteq> 10) (buf s)) \<le> length (buf s)"
        by (rule length_dropWhile_le)
      ultimately show ?thesis using Cons by simp
    qed
  qed
qed

text \<open>
  The two header loops: read a line, throw when the read failed, skip a line that is
  empty or starts with \<^verbatim>\<open>#\<close>, and stop at the first line that parses.
\<close>

function read_dimensions :: "istream \<Rightarrow> exn + (istream \<times> int \<times> int)" where
  "read_dimensions file =
     (case getline file [] of
        (file1, line) \<Rightarrow>
          if failbit file1 then Inl HeaderError
          else if line = [] \<or> hd line = 35 then read_dimensions file1
          else (case parse_two_ints line of
                  Some (width, height) \<Rightarrow> Inr (file1, width, height)
                | None \<Rightarrow> read_dimensions file1))"
  by pat_completeness auto
termination
  by (relation "measure (\<lambda>s. length (buf s))") (auto dest: getline_consumes [OF sym])

declare read_dimensions.simps [simp del]

function read_max_val :: "istream \<Rightarrow> exn + (istream \<times> int)" where
  "read_max_val file =
     (case getline file [] of
        (file1, line) \<Rightarrow>
          if failbit file1 then Inl MaxColorError
          else if line = [] \<or> hd line = 35 then read_max_val file1
          else (case parse_one_int line of
                  Some max_val \<Rightarrow> Inr (file1, max_val)
                | None \<Rightarrow> read_max_val file1))"
  by pat_completeness auto
termination
  by (relation "measure (\<lambda>s. length (buf s))") (auto dest: getline_consumes [OF sym])

declare read_max_val.simps [simp del]

text \<open>The header, up to the test of the maximum value.\<close>

definition read_header :: "istream \<Rightarrow> exn + (istream \<times> int \<times> int)" where
  "read_header file =
     (case extract_string file [] of
        (file1, magic) \<Rightarrow>
          if magic \<noteq> bytes ''P6'' then Inl (InvalidPPMFormat magic)
          else (case read_dimensions file1 of
                  Inl e \<Rightarrow> Inl e
                | Inr (file2, width, height) \<Rightarrow>
                    (case read_max_val file2 of
                       Inl e \<Rightarrow> Inl e
                     | Inr (file3, max_val) \<Rightarrow>
                         if max_val \<noteq> 255 then Inl (UnsupportedMax max_val)
                         else Inr (file3, width, height))))"

text \<open>\<^verbatim>\<open>while (std::isspace(file.peek())) file.get();\<close>\<close>

function skip_whitespace :: "istream \<Rightarrow> istream" where
  "skip_whitespace file =
     (case peek file of
        (file1, None) \<Rightarrow> file1
      | (file1, Some c) \<Rightarrow> if isspace c then skip_whitespace (get file1) else file1)"
  by pat_completeness auto
termination
  by (relation "measure (\<lambda>s. length (buf s))")
    (auto simp add: peek_def get_def sentry_def good_def split: if_splits list.splits)

declare skip_whitespace.simps [simp del]

text \<open>
  The rows are read into a buffer of \<open>height\<close> rows of \<open>width\<close> zero pixels. A row of
  pixels is stored as its channels in order, so \<open>width * 3\<close> bytes fill it.
\<close>

fun pixels_of :: "byte list \<Rightarrow> RGB list" where
  "pixels_of (x # y # z # rest) = \<lparr>r = x, g = y, b = z\<rparr> # pixels_of rest"
| "pixels_of rest = []"

fun bytes_of :: "RGB list \<Rightarrow> byte list" where
  "bytes_of [] = []"
| "bytes_of (p # ps) = r p # g p # b p # bytes_of ps"

definition print_block :: "image \<Rightarrow> int \<Rightarrow> int \<Rightarrow> fault + unit" where
  "print_block img height width =
     for_each [0..min 5 height - 1] (\<lambda>i.
       for_each [0..min 5 width - 1] (\<lambda>j u.
         case px_at img i j of Inl e \<Rightarrow> Inl e | Inr p \<Rightarrow> Inr ()))
       ()"

definition read_rows :: "istream \<Rightarrow> int \<Rightarrow> int \<Rightarrow> failure + (istream \<times> image)" where
  "read_rows file width height =
     for_each [0..height - 1] (\<lambda>i (file, img).
         if INT_MAX < width * 3 then Inl (UB SignedOverflow)
         else (case read file (nat (width * 3)) of
                 (file1, got) \<Rightarrow>
                   if int (length got) \<noteq> width * 3 then Inl (Raise (PixelDataError i))
                   else Inr (file1, img[nat i := pixels_of got])))
       (file, replicate (nat height) (replicate (nat width) \<lparr>r = 0, g = 0, b = 0\<rparr>))"

definition read_pixels :: "istream \<Rightarrow> int \<Rightarrow> int \<Rightarrow> failure + image" where
  "read_pixels file width height =
     (let file1 = skip_whitespace file
      in if width < 0 \<or> height < 0 then Inl (Raise LengthError)
         else (case read_rows file1 width height of
                 Inl e \<Rightarrow> Inl e
               | Inr (file2, img) \<Rightarrow>
                   (case print_block img height width of
                      Inl e \<Rightarrow> Inl (UB e)
                    | Inr u \<Rightarrow> Inr img)))"

definition readPPM :: "filesystem \<Rightarrow> string \<Rightarrow> failure + image" where
  "readPPM fs filename =
     (case open_in fs filename of
        None \<Rightarrow> Inl (Raise (CannotOpen filename))
      | Some file \<Rightarrow>
          (case read_header file of
             Inl e \<Rightarrow> Inl (Raise e)
           | Inr (file1, width, height) \<Rightarrow> read_pixels file1 width height))"

subsection \<open>writePPM\<close>

text \<open>\<^verbatim>\<open>file << n\<close> for an \<^verbatim>\<open>int\<close>: the decimal digits, after a minus sign when negative.\<close>

definition digit_char :: "nat \<Rightarrow> byte" where
  "digit_char d = of_nat (48 + d)"

fun digits :: "nat \<Rightarrow> byte list" where
  "digits n = (if n < 10 then [digit_char n] else digits (n div 10) @ [digit_char (n mod 10)])"

declare digits.simps [simp del]

definition show_int :: "int \<Rightarrow> byte list" where
  "show_int n = (if n < 0 then 45 # digits (nat (- n)) else digits (nat n))"

definition header :: "int \<Rightarrow> int \<Rightarrow> byte list" where
  "header width height =
     bytes ''P6'' @ [10] @ show_int width @ [32] @ show_int height @ [10] @ bytes ''255'' @ [10]"

text \<open>
  \<^verbatim>\<open>file.write(p, width * 3)\<close> copies \<open>width * 3\<close> bytes from the storage of row \<open>i\<close>; a
  shorter row is read past its end.
\<close>

definition write_rows :: "filesystem \<Rightarrow> string \<Rightarrow> image \<Rightarrow> int \<Rightarrow> int \<Rightarrow> failure + filesystem" where
  "write_rows fs filename img width height =
     for_each [0..height - 1] (\<lambda>i fs.
         case row_at img i of
           Inl e \<Rightarrow> Inl (UB e)
         | Inr row \<Rightarrow>
             if INT_MAX < width * 3 then Inl (UB SignedOverflow)
             else if int (length row) < width then Inl (UB (ColOOB i (int (length row))))
             else Inr (write_bytes fs filename (bytes_of (take (nat width) row))))
       fs"

definition writePPM :: "filesystem \<Rightarrow> string \<Rightarrow> image \<Rightarrow> filesystem \<times> (failure + unit)" where
  "writePPM fs filename img =
     (case open_out fs filename of
        None \<Rightarrow> (fs, Inl (Raise (CannotOpen filename)))
      | Some fs1 \<Rightarrow>
          (let height = int (length img);
               width = (if 0 < height then int (length (img ! 0)) else 0)
           in if width = 0 \<or> height = 0 then (fs1, Inl (Raise EmptyImage))
              else
                (let fs2 = write_bytes fs1 filename (header width height)
                 in case print_block img height width of
                      Inl e \<Rightarrow> (fs2, Inl (UB e))
                    | Inr u \<Rightarrow>
                        (case write_rows fs2 filename img width height of
                           Inl e \<Rightarrow> (fs2, Inl e)
                         | Inr fs3 \<Rightarrow>
                             (case open_in fs3 filename of
                                None \<Rightarrow> (fs3, Inl (Raise (VerifyOpenError filename)))
                              | Some testFile \<Rightarrow>
                                  (let size = int (length (buf testFile));
                                       expectedMinSize = width * height * 3 + 10
                                   in if INT_MAX < width * height * 3 + 10
                                      then (fs3, Inl (UB SignedOverflow))
                                      else if size < expectedMinSize
                                      then (fs3, Inl (Raise (SizeMismatch expectedMinSize size)))
                                      else (fs3, Inr ())))))))"

section \<open>The reader of print_ppm.cpp\<close>

text \<open>
  \<^verbatim>\<open>print_ppm.cpp\<close> has its own pixel, with \<^verbatim>\<open>int\<close> channels. \<^verbatim>\<open>loadPPM\<close> returns a \<^verbatim>\<open>bool\<close>
  and writes through four reference parameters; the model passes their values in as a
  record and returns the record with the \<^verbatim>\<open>bool\<close>.
\<close>

record RGB_int =
  r_int :: int
  g_int :: int
  b_int :: int

record load_vars =
  image_var :: "RGB_int list list"
  width_var :: int
  height_var :: int
  format_var :: "byte list"

text \<open>\<^verbatim>\<open>v.resize(n, x)\<close> keeps the first \<open>n\<close> elements and fills up with copies of \<open>x\<close>.\<close>

definition resize :: "'a list \<Rightarrow> nat \<Rightarrow> 'a \<Rightarrow> 'a list" where
  "resize xs n x = take n xs @ replicate (n - length xs) x"

text \<open>
  One pixel of the plain format: three extractions into the channels of \<^verbatim>\<open>image[i][j]\<close>,
  each of which keeps the old value when its sentry fails.
\<close>

definition read_P3_pixel ::
  "int \<Rightarrow> int \<Rightarrow> istream \<times> RGB_int list list \<Rightarrow> failure + (istream \<times> RGB_int list list)" where
  "read_P3_pixel i j = (\<lambda>(file, img).
     case px_at img i j of
       Inl e \<Rightarrow> Inl (UB e)
     | Inr p \<Rightarrow>
         (case extract_int file (r_int p) of
            (file1, rv) \<Rightarrow>
              (case extract_int file1 (g_int p) of
                 (file2, gv) \<Rightarrow>
                   (case extract_int file2 (b_int p) of
                      (file3, bv) \<Rightarrow>
                        (case px_set img i j \<lparr>r_int = rv, g_int = gv, b_int = bv\<rparr> of
                           Inl e \<Rightarrow> Inl (UB e)
                         | Inr img' \<Rightarrow> Inr (file3, img'))))))"

text \<open>
  One pixel of the binary format: three bytes are read into the local array \<^verbatim>\<open>rgb\<close>,
  which is not initialised, and all three elements are then converted to \<^verbatim>\<open>int\<close>. After a
  short read the elements not stored are indeterminate, so using them is undefined.
\<close>

definition read_P6_pixel ::
  "int \<Rightarrow> int \<Rightarrow> istream \<times> RGB_int list list \<Rightarrow> failure + (istream \<times> RGB_int list list)" where
  "read_P6_pixel i j = (\<lambda>(file, img).
     case read file 3 of
       (file1, rgb) \<Rightarrow>
         if length rgb < 3 then Inl (UB IndeterminateValue)
         else (case px_set img i j
                      \<lparr>r_int = uint (rgb ! 0), g_int = uint (rgb ! 1), b_int = uint (rgb ! 2)\<rparr> of
                 Inl e \<Rightarrow> Inl (UB e)
               | Inr img' \<Rightarrow> Inr (file1, img')))"

definition load_pixels ::
  "byte list \<Rightarrow> int \<Rightarrow> int \<Rightarrow> istream \<times> RGB_int list list \<Rightarrow>
   failure + (istream \<times> RGB_int list list)" where
  "load_pixels format width height =
     (if format = bytes ''P3''
      then for_each [0..height - 1] (\<lambda>i. for_each [0..width - 1] (read_P3_pixel i))
      else if format = bytes ''P6''
      then for_each [0..height - 1] (\<lambda>i. for_each [0..width - 1] (read_P6_pixel i))
      else Inr)"

definition loadPPM :: "filesystem \<Rightarrow> string \<Rightarrow> load_vars \<Rightarrow> failure + (bool \<times> load_vars)" where
  "loadPPM fs filename vars =
     (case open_in fs filename of
        None \<Rightarrow> Inr (False, vars)
      | Some file \<Rightarrow>
          (case extract_string file (format_var vars) of
             (file1, format) \<Rightarrow>
               if format \<noteq> bytes ''P3'' \<and> format \<noteq> bytes ''P6''
               then Inr (False, vars\<lparr>format_var := format\<rparr>)
               else
                 (case extract_int file1 (width_var vars) of
                    (file2, width) \<Rightarrow>
                      (case extract_int file2 (height_var vars) of
                         (file3, height) \<Rightarrow>
                           (case extract_int file3 0 of
                              (file4, maxVal) \<Rightarrow>
                                if width < 0 \<or> height < 0 then Inl (Raise LengthError)
                                else
                                  (case load_pixels format width height
                                          (ignore file4,
                                           resize (image_var vars) (nat height)
                                             (replicate (nat width)
                                                \<lparr>r_int = 0, g_int = 0, b_int = 0\<rparr>)) of
                                     Inl e \<Rightarrow> Inl e
                                   | Inr (file5, img) \<Rightarrow>
                                       Inr (True,
                                            \<lparr>image_var = img, width_var = width,
                                             height_var = height, format_var = format\<rparr>)))))))"

text \<open>
  \<^verbatim>\<open>main\<close> calls \<^verbatim>\<open>loadPPM\<close> with an empty image, an empty format string, and \<^verbatim>\<open>width\<close> and
  \<^verbatim>\<open>height\<close> not initialised: whatever values they hold are parameters here.
\<close>

definition main_vars :: "int \<Rightarrow> int \<Rightarrow> load_vars" where
  "main_vars width height = \<lparr>image_var = [], width_var = width, height_var = height, format_var = []\<rparr>"

section \<open>Notions used to state the properties\<close>

definition has_shape :: "'a list list \<Rightarrow> nat \<Rightarrow> nat \<Rightarrow> bool" where
  "has_shape img h w = (length img = h \<and> list_all (\<lambda>row. length row = w) img)"

definition neighbourhood :: "image \<Rightarrow> int \<Rightarrow> int \<Rightarrow> RGB list" where
  "neighbourhood img i j =
     concat (map (\<lambda>x. map (\<lambda>y. img ! nat (i + x) ! nat (j + y)) [-1, 0, 1]) [-1, 0, 1])"

definition channel_sum :: "(RGB \<Rightarrow> byte) \<Rightarrow> image \<Rightarrow> int \<Rightarrow> int \<Rightarrow> int" where
  "channel_sum ch img i j = sum_list (map (\<lambda>p. uint (ch p)) (neighbourhood img i j))"

definition box_average :: "(RGB \<Rightarrow> byte) \<Rightarrow> image \<Rightarrow> int \<Rightarrow> int \<Rightarrow> int" where
  "box_average ch img i j = channel_sum ch img i j div 9"

definition same_shape :: "'a list list \<Rightarrow> 'a list list \<Rightarrow> bool" where
  "same_shape out img =
     (rectangular out \<and> img_height out = img_height img \<and> img_width out = img_width img)"

definition sample3 :: image where
  "sample3 = [[\<lparr>r = 9, g = 0, b = 1\<rparr>, \<lparr>r = 18, g = 0, b = 2\<rparr>, \<lparr>r = 27, g = 0, b = 3\<rparr>],
              [\<lparr>r = 36, g = 0, b = 4\<rparr>, \<lparr>r = 45, g = 255, b = 5\<rparr>, \<lparr>r = 54, g = 0, b = 6\<rparr>],
              [\<lparr>r = 63, g = 0, b = 7\<rparr>, \<lparr>r = 72, g = 0, b = 8\<rparr>, \<lparr>r = 81, g = 0, b = 10\<rparr>]]"

definition sample4 :: image where
  "sample4 = map (\<lambda>i. map (\<lambda>j. \<lparr>r = of_nat (10 * i + j), g = of_nat i, b = of_nat j\<rparr>) [0, 1, 2, 3])
               [0, 1, 2, 3]"

definition sample4x6 :: image where
  "sample4x6 = map (\<lambda>i. map (\<lambda>j. \<lparr>r = of_nat (40 * i + j), g = of_nat (7 * j), b = of_nat i\<rparr>)
                             [0, 1, 2, 3, 4, 5])
                 [0, 1, 2, 3]"

definition sample6 :: image where
  "sample6 = [map (\<lambda>j. \<lparr>r = of_nat j, g = 7, b = 9\<rparr>) [0, 1, 2, 3, 4, 5]]"

definition empty_fs :: filesystem where
  "empty_fs = (\<lambda>path. Missing)"

definition old_fs :: filesystem where
  "old_fs = empty_fs(''out.ppm'' := Regular [1, 2, 3])"

definition short_file :: "byte list" where
  "short_file = bytes ''P6'' @ [10] @ bytes ''2 1'' @ [10] @ bytes ''255'' @ [10, 1, 2, 3, 4, 5]"

definition space_file :: "byte list" where
  "space_file = bytes ''P6'' @ [10] @ bytes ''1 1'' @ [10] @ bytes ''255'' @ [10, 10, 32, 9]"

definition space_pixel :: image where
  "space_pixel = [[\<lparr>r = 32, g = 65, b = 66\<rparr>]]"

subsection \<open>Files that loadPPM reads as intended\<close>

text \<open>
  A header field is a run of white space followed by a decimal number that fits an
  \<^verbatim>\<open>int\<close>. A binary file is the magic token, three fields, one white-space byte and the
  pixel bytes; a plain file is the magic token, three fields and then one field for each
  sample, followed by anything that does not start with a digit. Neither has a comment.
  \<open>grid_of\<close> is the grid of \<open>H\<close> rows and \<open>W\<close> columns whose samples are numbered row by
  row.
\<close>

definition whitespace :: "byte list \<Rightarrow> bool" where
  "whitespace ws = (ws \<noteq> [] \<and> list_all isspace ws)"

definition number :: "byte list \<Rightarrow> bool" where
  "number ds = (ds \<noteq> [] \<and> list_all isdigit ds \<and> decimal ds \<le> INT_MAX)"

definition tail_ok :: "byte list \<Rightarrow> bool" where
  "tail_ok rest = (case rest of [] \<Rightarrow> True | c # cs \<Rightarrow> \<not> isdigit c)"

definition advance :: "istream \<Rightarrow> byte list \<Rightarrow> istream" where
  "advance s rest = (if rest = [] then s\<lparr>buf := [], eofbit := True\<rparr> else s\<lparr>buf := rest\<rparr>)"

type_synonym token = "byte list \<times> byte list"

definition token_ok :: "token \<Rightarrow> bool" where
  "token_ok t = (whitespace (fst t) \<and> number (snd t))"

definition token_bytes :: "token \<Rightarrow> byte list" where
  "token_bytes t = fst t @ snd t"

definition token_value :: "token \<Rightarrow> int" where
  "token_value t = decimal (snd t)"

definition tokens_from :: "token list \<Rightarrow> byte list \<Rightarrow> nat \<Rightarrow> byte list" where
  "tokens_from samples trailer m = concat (map token_bytes (drop m samples)) @ trailer"

definition before_token :: "token list \<Rightarrow> byte list \<Rightarrow> nat \<Rightarrow> istream \<Rightarrow> bool" where
  "before_token samples trailer m s =
     (good s \<and> (\<exists>lead. list_all isspace lead \<and>
                  buf s = lead @ snd (samples ! m) @ tokens_from samples trailer (Suc m)))"

definition grid_of :: "nat \<Rightarrow> nat \<Rightarrow> (nat \<Rightarrow> int) \<Rightarrow> RGB_int list list" where
  "grid_of H W sample =
     map (\<lambda>i. map (\<lambda>j. \<lparr>r_int = sample (3 * (i * W + j)),
                          g_int = sample (3 * (i * W + j) + 1),
                          b_int = sample (3 * (i * W + j) + 2)\<rparr>) [0..<W]) [0..<H]"

definition binary_file :: "byte list \<Rightarrow> token \<Rightarrow> token \<Rightarrow> token \<Rightarrow> byte \<Rightarrow> byte list \<Rightarrow> bool" where
  "binary_file content tw th tm c body =
     (content = bytes ''P6'' @ token_bytes tw @ token_bytes th @ token_bytes tm @ [c] @ body \<and>
      token_ok tw \<and> token_ok th \<and> token_ok tm \<and> isspace c \<and>
      3 * token_value tw * token_value th \<le> int (length body))"

definition plain_file :: "byte list \<Rightarrow> token \<Rightarrow> token \<Rightarrow> token \<Rightarrow> token list \<Rightarrow> byte list \<Rightarrow> bool" where
  "plain_file content tw th tm samples trailer =
     (content = bytes ''P3'' @ token_bytes tw @ token_bytes th @ token_bytes tm @
                concat (map token_bytes samples) @ trailer \<and>
      token_ok tw \<and> token_ok th \<and> token_ok tm \<and> list_all token_ok samples \<and> tail_ok trailer \<and>
      int (length samples) = 3 * token_value tw * token_value th)"

definition loaded :: "byte list \<Rightarrow> token \<Rightarrow> token \<Rightarrow> (nat \<Rightarrow> int) \<Rightarrow> load_vars" where
  "loaded format tw th sample =
     \<lparr>image_var = grid_of (nat (token_value th)) (nat (token_value tw)) sample,
      width_var = token_value tw, height_var = token_value th, format_var = format\<rparr>"

definition binary_sample :: "byte list" where
  "binary_sample = bytes ''P6'' @ [10] @ bytes ''2 1'' @ [10] @ bytes ''255'' @ [10, 1, 2, 3, 4, 5, 6]"

definition plain_sample :: "byte list" where
  "plain_sample =
     bytes ''P3'' @ [10] @ bytes ''1 1'' @ [10] @ bytes ''255'' @ [10] @ bytes ''10 20 300'' @ [10]"

definition gray_sample :: "byte list" where
  "gray_sample = bytes ''P5'' @ [10] @ bytes ''1 1'' @ [10] @ bytes ''255'' @ [10, 7]"

definition truncated_sample :: "byte list" where
  "truncated_sample = bytes ''P3'' @ [10] @ bytes ''1 1'' @ [10] @ bytes ''255'' @ [10]"

definition comment_sample :: "byte list" where
  "comment_sample =
     bytes ''P6'' @ [10] @ bytes ''# made by hand'' @ [10] @ bytes ''1 1'' @ [10] @
     bytes ''255'' @ [10, 1, 2, 3]"

definition sample_fs :: filesystem where
  "sample_fs = empty_fs
     (''a.ppm'' := Regular binary_sample,
      ''b.ppm'' := Regular plain_sample,
      ''c.ppm'' := Regular gray_sample,
      ''t.ppm'' := Regular truncated_sample,
      ''m.ppm'' := Regular comment_sample)"

section \<open>Loop rule\<close>

text \<open>
  An invariant rule for \<open>for_each\<close>: if \<open>I 0\<close> holds at the start and every iteration
  succeeds and takes \<open>I k\<close> to \<open>I (k + 1)\<close>, the loop succeeds and \<open>I (length xs)\<close> holds
  at the end.
\<close>

lemma for_each_rule:
  assumes "I 0 s"
    and "\<And>k t. k < length xs \<Longrightarrow> I k t \<Longrightarrow> \<exists>t'. body (xs ! k) t = Inr t' \<and> I (Suc k) t'"
  shows "\<exists>s'. for_each xs body s = Inr s' \<and> I (length xs) s'"
  using assms
proof (induction xs arbitrary: s I)
  case Nil
  then show ?case by simp
next
  case (Cons x xs)
  from Cons.prems(2) [of 0 s] Cons.prems(1)
  obtain t where t: "body x s = Inr t" "I (Suc 0) t" by auto
  have "\<exists>s'. for_each xs body t = Inr s' \<and> (\<lambda>k. I (Suc k)) (length xs) s'"
  proof (rule Cons.IH)
    show "I (Suc 0) t" by (rule t(2))
  next
    fix k u
    assume "k < length xs" "I (Suc k) u"
    with Cons.prems(2) [of "Suc k" u]
    show "\<exists>t'. body (xs ! k) u = Inr t' \<and> I (Suc (Suc k)) t'" by simp
  qed
  with t(1) show ?case by simp
qed

lemma nth_upto_int: "k < nat (j - i + 1) \<Longrightarrow> [i..j] ! k = i + int k"
  by (rule nth_upto) linarith

lemma has_shape_nth: "has_shape img h w \<Longrightarrow> i < h \<Longrightarrow> length (img ! i) = w"
  by (simp add: has_shape_def list_all_length)

lemma has_shape_length: "has_shape img h w \<Longrightarrow> length img = h"
  by (simp add: has_shape_def)

lemma has_shapeI: "length img = h \<Longrightarrow> (\<And>i. i < h \<Longrightarrow> length (img ! i) = w) \<Longrightarrow> has_shape img h w"
  by (simp add: has_shape_def list_all_length)

lemma px_at_shape:
  assumes "has_shape img h w" "0 \<le> i" "i < int h" "0 \<le> j" "j < int w"
  shows "px_at img i j = Inr (img ! nat i ! nat j)"
  using assms has_shape_nth [OF assms(1), of "nat i"]
  by (simp add: px_at_def row_at_def has_shape_length)

lemma px_set_shape:
  assumes "has_shape cur h w" "0 \<le> i" "i < int h" "0 \<le> j" "j < int w"
  shows "\<exists>out. px_set cur i j p = Inr out \<and> has_shape out h w \<and>
           (\<forall>i'<h. \<forall>j'<w. out ! i' ! j' = (if int i' = i \<and> int j' = j then p else cur ! i' ! j'))"
proof -
  let ?out = "cur[nat i := (cur ! nat i)[nat j := p]]"
  have len: "length cur = h" using assms(1) by (rule has_shape_length)
  have row: "length (cur ! nat i) = w" using assms by (intro has_shape_nth [OF assms(1)]) simp
  have 1: "px_set cur i j p = Inr ?out"
    using assms len row by (simp add: px_set_def row_at_def)
  have 2: "has_shape ?out h w"
  proof (rule has_shapeI)
    show "length ?out = h" using len by simp
  next
    fix k assume "k < h"
    then show "length (?out ! k) = w"
      using len row has_shape_nth [OF assms(1), of k] by (cases "k = nat i") simp_all
  qed
  have 3: "\<forall>i'<h. \<forall>j'<w. ?out ! i' ! j' = (if int i' = i \<and> int j' = j then p else cur ! i' ! j')"
  proof (intro allI impI)
    fix i' j' assume "i' < h" "j' < w"
    show "?out ! i' ! j' = (if int i' = i \<and> int j' = j then p else cur ! i' ! j')"
    proof (cases "i' = nat i")
      case True
      then show ?thesis using len row assms \<open>i' < h\<close> \<open>j' < w\<close>
        by (cases "j' = nat j") auto
    next
      case False
      then show ?thesis using len assms \<open>i' < h\<close> by auto
    qed
  qed
  from 1 2 3 show ?thesis by blast
qed

lemma length_upto_int: "length [i..j] = nat (j - i + 1)"
  by simp

lemma fill_row:
  assumes shape: "has_shape cur h w"
    and i: "0 \<le> i" "i < int h"
    and cd: "0 \<le> c" "d < int w"
    and body: "\<And>j t. c \<le> j \<Longrightarrow> j \<le> d \<Longrightarrow> body j t = px_set t i j (G j)"
  shows "\<exists>out. for_each [c..d] body cur = Inr out \<and> has_shape out h w \<and>
           (\<forall>i'<h. \<forall>j'<w. out ! i' ! j' =
              (if int i' = i \<and> c \<le> int j' \<and> int j' \<le> d then G (int j') else cur ! i' ! j'))"
proof -
  define I where "I k t \<longleftrightarrow> has_shape t h w \<and>
           (\<forall>i'<h. \<forall>j'<w. t ! i' ! j' =
              (if int i' = i \<and> c \<le> int j' \<and> int j' < c + int k then G (int j') else cur ! i' ! j'))"
    for k t
  have "\<exists>out. for_each [c..d] body cur = Inr out \<and> I (length [c..d]) out"
  proof (rule for_each_rule)
    show "I 0 cur" using shape by (auto simp add: I_def)
  next
    fix k t
    assume k: "k < length [c..d]" and inv: "I k t"
    then have j: "[c..d] ! k = c + int k" "c + int k \<le> d"
      by (simp_all add: nth_upto_int)
    from inv have st: "has_shape t h w" by (simp add: I_def)
    from px_set_shape [OF st i, of "c + int k" "G (c + int k)"] cd j
    obtain out where out: "px_set t i (c + int k) (G (c + int k)) = Inr out" "has_shape out h w"
      "\<forall>i'<h. \<forall>j'<w. out ! i' ! j' = (if int i' = i \<and> int j' = c + int k then G (c + int k) else t ! i' ! j')"
      by auto
    have "body ([c..d] ! k) t = Inr out"
      using body [of "c + int k" t] j out(1) by simp
    moreover have "I (Suc k) out"
      unfolding I_def
    proof (intro conjI allI impI)
      show "has_shape out h w" by (rule out(2))
    next
      fix i' j' assume b: "i' < h" "j' < w"
      with inv have "t ! i' ! j' = (if int i' = i \<and> c \<le> int j' \<and> int j' < c + int k then G (int j') else cur ! i' ! j')"
        by (simp add: I_def)
      with out(3) b
      show "out ! i' ! j' = (if int i' = i \<and> c \<le> int j' \<and> int j' < c + int (Suc k) then G (int j') else cur ! i' ! j')"
        by auto
    qed
    ultimately show "\<exists>t'. body ([c..d] ! k) t = Inr t' \<and> I (Suc k) t'" by blast
  qed
  then obtain out where out: "for_each [c..d] body cur = Inr out" "I (length [c..d]) out" by blast
  have "\<And>j'::nat. (c \<le> int j' \<and> int j' < c + int (length [c..d])) = (c \<le> int j' \<and> int j' \<le> d)"
    by auto
  with out(2) have "has_shape out h w \<and>
           (\<forall>i'<h. \<forall>j'<w. out ! i' ! j' =
              (if int i' = i \<and> c \<le> int j' \<and> int j' \<le> d then G (int j') else cur ! i' ! j'))"
    unfolding I_def by simp
  with out(1) show ?thesis by blast
qed

lemma fill_loop:
  assumes shape: "has_shape init h w"
    and ab: "0 \<le> a" "z < int h"
    and cd: "0 \<le> c" "d < int w"
    and body: "\<And>i j t. a \<le> i \<Longrightarrow> i \<le> z \<Longrightarrow> c \<le> j \<Longrightarrow> j \<le> d \<Longrightarrow>
                 body i j t = px_set t i j (G i j)"
  shows "\<exists>out. for_each [a..z] (\<lambda>i. for_each [c..d] (body i)) init = Inr out \<and>
           has_shape out h w \<and>
           (\<forall>i'<h. \<forall>j'<w. out ! i' ! j' =
              (if a \<le> int i' \<and> int i' \<le> z \<and> c \<le> int j' \<and> int j' \<le> d
               then G (int i') (int j') else init ! i' ! j'))"
proof -
  define I where "I k t \<longleftrightarrow> has_shape t h w \<and>
           (\<forall>i'<h. \<forall>j'<w. t ! i' ! j' =
              (if a \<le> int i' \<and> int i' < a + int k \<and> c \<le> int j' \<and> int j' \<le> d
               then G (int i') (int j') else init ! i' ! j'))"
    for k t
  have "\<exists>out. for_each [a..z] (\<lambda>i. for_each [c..d] (body i)) init = Inr out \<and>
          I (length [a..z]) out"
  proof (rule for_each_rule)
    show "I 0 init" using shape by (auto simp add: I_def)
  next
    fix k t
    assume k: "k < length [a..z]" and inv: "I k t"
    then have i: "[a..z] ! k = a + int k" "a + int k \<le> z"
      by (simp_all add: nth_upto_int)
    from inv have st: "has_shape t h w" by (simp add: I_def)
    have "\<exists>out. for_each [c..d] (body (a + int k)) t = Inr out \<and> has_shape out h w \<and>
           (\<forall>i'<h. \<forall>j'<w. out ! i' ! j' =
              (if int i' = a + int k \<and> c \<le> int j' \<and> int j' \<le> d
               then G (a + int k) (int j') else t ! i' ! j'))"
      using st ab cd i(2) by (intro fill_row body) auto
    then obtain out where out: "for_each [c..d] (body (a + int k)) t = Inr out"
      "has_shape out h w"
      "\<forall>i'<h. \<forall>j'<w. out ! i' ! j' =
              (if int i' = a + int k \<and> c \<le> int j' \<and> int j' \<le> d
               then G (a + int k) (int j') else t ! i' ! j')"
      by blast
    have "I (Suc k) out"
      unfolding I_def
    proof (intro conjI allI impI)
      show "has_shape out h w" by (rule out(2))
    next
      fix i' j' assume bd: "i' < h" "j' < w"
      with inv have "t ! i' ! j' =
          (if a \<le> int i' \<and> int i' < a + int k \<and> c \<le> int j' \<and> int j' \<le> d
           then G (int i') (int j') else init ! i' ! j')"
        by (simp add: I_def)
      with out(3) bd
      show "out ! i' ! j' =
          (if a \<le> int i' \<and> int i' < a + int (Suc k) \<and> c \<le> int j' \<and> int j' \<le> d
           then G (int i') (int j') else init ! i' ! j')"
        by auto
    qed
    with out(1) i(1)
    show "\<exists>t'. for_each [c..d] (body ([a..z] ! k)) t = Inr t' \<and> I (Suc k) t'" by simp
  qed
  then obtain out where out:
    "for_each [a..z] (\<lambda>i. for_each [c..d] (body i)) init = Inr out" "I (length [a..z]) out"
    by blast
  have "has_shape out h w" using out(2) by (simp add: I_def)
  moreover have "\<forall>i'<h. \<forall>j'<w. out ! i' ! j' =
              (if a \<le> int i' \<and> int i' \<le> z \<and> c \<le> int j' \<and> int j' \<le> d
               then G (int i') (int j') else init ! i' ! j')"
  proof (intro allI impI)
    fix i' j' assume bd: "i' < h" "j' < w"
    have eq: "(a \<le> int i' \<and> int i' < a + int (nat (z - a + 1))) = (a \<le> int i' \<and> int i' \<le> z)"
      by auto
    from out(2) bd have "out ! i' ! j' =
          (if (a \<le> int i' \<and> int i' < a + int (nat (z - a + 1))) \<and> c \<le> int j' \<and> int j' \<le> d
           then G (int i') (int j') else init ! i' ! j')"
      by (simp add: I_def)
    then show "out ! i' ! j' =
              (if a \<le> int i' \<and> int i' \<le> z \<and> c \<le> int j' \<and> int j' \<le> d
               then G (int i') (int j') else init ! i' ! j')"
      unfolding eq by simp
  qed
  ultimately show ?thesis using out(1) by blast
qed

lemma has_shape_replicate: "has_shape (replicate h (replicate w p)) h w"
  by (simp add: has_shape_def list_all_length)

lemma rectangular_shape: "img \<noteq> [] \<Longrightarrow> rectangular img \<Longrightarrow> has_shape img (img_height img) (img_width img)"
  by (cases img) (simp_all add: rectangular_def has_shape_def img_height_def img_width_def)

lemma row_at_0: "img \<noteq> [] \<Longrightarrow> row_at img 0 = Inr (img ! 0)"
  by (simp add: row_at_def)

lemma img_width_nth0: "img \<noteq> [] \<Longrightarrow> length (img ! 0) = img_width img"
  by (cases img) (simp_all add: img_width_def)

lemma compress_shape:
  assumes "has_shape img h w" "0 < h"
  shows "\<exists>out. compress img = Inr out \<and> has_shape out (h div 2) (w div 2) \<and>
           (\<forall>i < h div 2. \<forall>j < w div 2. out ! i ! j = img ! (2 * i + 1) ! (2 * j + 1))"
proof -
  let ?init = "replicate (h div 2) (replicate (w div 2) \<lparr>r = 0, g = 0, b = 0\<rparr>) :: image"
  have len: "length img = h" and row0: "length (img ! 0) = w"
    using assms by (simp_all add: has_shape_length has_shape_nth)
  have ne: "img \<noteq> []" using assms len by auto
  have fill: "\<exists>out. for_each [0..int h div 2 - 1] (\<lambda>i. for_each [0..int w div 2 - 1]
       (\<lambda>j comp. case px_at img (2 * i + 1) (2 * j + 1) of Inl e \<Rightarrow> Inl e | Inr p \<Rightarrow> px_set comp i j p))
       ?init = Inr out \<and> has_shape out (h div 2) (w div 2) \<and>
       (\<forall>i'<h div 2. \<forall>j'<w div 2. out ! i' ! j' =
          (if 0 \<le> int i' \<and> int i' \<le> int h div 2 - 1 \<and> 0 \<le> int j' \<and> int j' \<le> int w div 2 - 1
           then img ! nat (2 * int i' + 1) ! nat (2 * int j' + 1) else ?init ! i' ! j'))"
  proof (rule fill_loop [where G = "\<lambda>i j. img ! nat (2 * i + 1) ! nat (2 * j + 1)"])
    show "has_shape ?init (h div 2) (w div 2)" by (rule has_shape_replicate)
  next
    fix i j :: int and t :: image
    assume "0 \<le> i" "i \<le> int h div 2 - 1" "0 \<le> j" "j \<le> int w div 2 - 1"
    then have "px_at img (2 * i + 1) (2 * j + 1) = Inr (img ! nat (2 * i + 1) ! nat (2 * j + 1))"
      by (intro px_at_shape [OF assms(1)]) auto
    then show "(case px_at img (2 * i + 1) (2 * j + 1) of Inl e \<Rightarrow> Inl e | Inr p \<Rightarrow> px_set t i j p) =
        px_set t i j (img ! nat (2 * i + 1) ! nat (2 * j + 1))"
      by simp
  qed (simp_all add: zdiv_int)
  then obtain out where out: "for_each [0..int h div 2 - 1] (\<lambda>i. for_each [0..int w div 2 - 1]
       (\<lambda>j comp. case px_at img (2 * i + 1) (2 * j + 1) of Inl e \<Rightarrow> Inl e | Inr p \<Rightarrow> px_set comp i j p))
       ?init = Inr out" "has_shape out (h div 2) (w div 2)"
       "\<forall>i'<h div 2. \<forall>j'<w div 2. out ! i' ! j' =
          (if 0 \<le> int i' \<and> int i' \<le> int h div 2 - 1 \<and> 0 \<le> int j' \<and> int j' \<le> int w div 2 - 1
           then img ! nat (2 * int i' + 1) ! nat (2 * int j' + 1) else ?init ! i' ! j')"
    by blast
  have 1: "compress img = Inr out"
    using out(1) ne len row0 by (simp add: compress_def row_at_0 Let_def zdiv_int nat_div_distrib)
  have 2: "\<forall>i < h div 2. \<forall>j < w div 2. out ! i ! j = img ! (2 * i + 1) ! (2 * j + 1)"
  proof (intro allI impI)
    fix i j assume bd: "i < h div 2" "j < w div 2"
    then have "int i \<le> int h div 2 - 1" "int j \<le> int w div 2 - 1" by (simp_all add: zdiv_int) 
    moreover have "nat (2 * int i + 1) = 2 * i + 1" "nat (2 * int j + 1) = 2 * j + 1" by simp_all
    ultimately show "out ! i ! j = img ! (2 * i + 1) ! (2 * j + 1)"
      using out(3) bd by simp
  qed
  from 1 2 out(2) show ?thesis by blast
qed

lemma upto_m1_1: "[-1..1] = [-1, 0, 1::int]"
  by (simp add: upto.simps)

lemma blur_sum_interior:
  assumes "has_shape img h w" "1 \<le> i" "i \<le> int h - 2" "1 \<le> j" "j \<le> int w - 2"
  shows "blur_sum img i j = Inr (channel_sum r img i j, channel_sum g img i j, channel_sum b img i j)"
proof -
  show ?thesis
    using assms
    by (simp add: blur_sum_def upto_m1_1 px_at_shape [OF assms(1)] channel_sum_def
        neighbourhood_def)
qed

lemma sum_list_uint_bounds:
  "0 \<le> sum_list (map (\<lambda>p. uint (ch p :: byte)) ps) \<and>
   sum_list (map (\<lambda>p. uint (ch p :: byte)) ps) \<le> 255 * int (length ps)"
proof (induction ps)
  case Nil
  then show ?case by simp
next
  case (Cons p ps)
  have "uint (ch p) < 256" using uint_lt2p [of "ch p"] by simp
  with Cons show ?case by simp
qed

lemma channel_sum_bounds: "0 \<le> channel_sum ch img i j \<and> channel_sum ch img i j \<le> 2295"
  using sum_list_uint_bounds [of ch "neighbourhood img i j"]
  by (simp add: channel_sum_def neighbourhood_def)

lemma uint_box_average: "uint (word_of_int (channel_sum ch img i j div 9) :: byte) = box_average ch img i j"
proof -
  have "0 \<le> channel_sum ch img i j div 9" "channel_sum ch img i j div 9 < 256"
    using channel_sum_bounds [of ch img i j] by arith+
  then show ?thesis
    by (simp add: box_average_def uint_word_of_int)
qed

lemma blur_shape:
  assumes sh: "has_shape img h w" and h: "0 < h"
  shows "\<exists>out. blur img = Inr out \<and> has_shape out h w \<and>
           (\<forall>i<h. \<forall>j<w. out ! i ! j =
              (if 1 \<le> int i \<and> int i \<le> int h - 2 \<and> 1 \<le> int j \<and> int j \<le> int w - 2
               then \<lparr>r = word_of_int (channel_sum r img (int i) (int j) div 9),
                     g = word_of_int (channel_sum g img (int i) (int j) div 9),
                     b = word_of_int (channel_sum b img (int i) (int j) div 9)\<rparr>
               else img ! i ! j))"
proof -
  have len: "length img = h" and row0: "length (img ! 0) = w"
    using assms by (simp_all add: has_shape_length has_shape_nth)
  have ne: "img \<noteq> []" using h len by auto
  have "\<exists>out. for_each [1..int h - 2] (\<lambda>i. for_each [1..int w - 2] (\<lambda>j cur.
          case blur_sum img i j of
            Inl e \<Rightarrow> Inl e
          | Inr (sum_r, sum_g, sum_b) \<Rightarrow>
              px_set cur i j \<lparr>r = word_of_int (sum_r div 9), g = word_of_int (sum_g div 9),
                              b = word_of_int (sum_b div 9)\<rparr>)) img = Inr out \<and>
        has_shape out h w \<and>
        (\<forall>i<h. \<forall>j<w. out ! i ! j =
              (if 1 \<le> int i \<and> int i \<le> int h - 2 \<and> 1 \<le> int j \<and> int j \<le> int w - 2
               then \<lparr>r = word_of_int (channel_sum r img (int i) (int j) div 9),
                     g = word_of_int (channel_sum g img (int i) (int j) div 9),
                     b = word_of_int (channel_sum b img (int i) (int j) div 9)\<rparr>
               else img ! i ! j))"
  proof (rule fill_loop [where G = "\<lambda>i j. \<lparr>r = word_of_int (channel_sum r img i j div 9),
                     g = word_of_int (channel_sum g img i j div 9),
                     b = word_of_int (channel_sum b img i j div 9)\<rparr>"])
    show "has_shape img h w" by (rule sh)
  next
    fix i j :: int and t :: image
    assume "1 \<le> i" "i \<le> int h - 2" "1 \<le> j" "j \<le> int w - 2"
    then show "(case blur_sum img i j of
            Inl e \<Rightarrow> Inl e
          | Inr (sum_r, sum_g, sum_b) \<Rightarrow>
              px_set t i j \<lparr>r = word_of_int (sum_r div 9), g = word_of_int (sum_g div 9),
                              b = word_of_int (sum_b div 9)\<rparr>) =
         px_set t i j \<lparr>r = word_of_int (channel_sum r img i j div 9),
                     g = word_of_int (channel_sum g img i j div 9),
                     b = word_of_int (channel_sum b img i j div 9)\<rparr>"
      by (simp add: blur_sum_interior [OF sh])
  qed simp_all
  then show ?thesis
    using ne len row0 by (simp add: blur_def row_at_0 Let_def)
qed

lemma for_each_cases:
  assumes "I s"
    and "\<And>x t. x \<in> set xs \<Longrightarrow> I t \<Longrightarrow> (case body x t of Inl e \<Rightarrow> Q e | Inr t' \<Rightarrow> I t')"
  shows "case for_each xs body s of Inl e \<Rightarrow> Q e | Inr s' \<Rightarrow> I s'"
  using assms
proof (induction xs arbitrary: s)
  case Nil
  then show ?case by simp
next
  case (Cons x xs)
  from Cons.prems(2) [of x s] Cons.prems(1)
  have step: "case body x s of Inl e \<Rightarrow> Q e | Inr t' \<Rightarrow> I t'" by simp
  show ?case
  proof (cases "body x s")
    case (Inl e)
    with step show ?thesis by simp
  next
    case (Inr t)
    with step have "I t" by simp
    then have "case for_each xs body t of Inl e \<Rightarrow> Q e | Inr s' \<Rightarrow> I s'"
      using Cons.prems(2) by (intro Cons.IH) auto
    with Inr show ?thesis by simp
  qed
qed

lemma print_row0_ok:
  assumes "img \<noteq> []" "\<forall>j\<in>set js. 0 \<le> j \<and> j < int (length (img ! 0))"
  shows "print_row0 img js = Inr ()"
proof -
  have "for_each js (\<lambda>j u. case px_at img 0 j of Inl e \<Rightarrow> Inl e | Inr p \<Rightarrow> Inr ()) u = Inr ()" for u
    using assms(2)
  proof (induction js)
    case Nil
    then show ?case by simp
  next
    case (Cons j js)
    then have "px_at img 0 j = Inr (img ! 0 ! nat j)"
      using assms(1) by (simp add: px_at_def row_at_def)
    with Cons show ?case by simp
  qed
  then show ?thesis by (simp add: print_row0_def)
qed

lemma print_ends_ok:
  assumes "img \<noteq> []" "length (img ! 0) = w" "5 \<le> w"
  shows "print_ends img (int w) = Inr ()"
proof -
  have "print_row0 img [0..min 5 (int w) - 1] = Inr ()"
    using assms by (intro print_row0_ok) auto
  moreover have "print_row0 img [int w - 5..int w - 1] = Inr ()"
    using assms by (intro print_row0_ok) auto
  ultimately show ?thesis by (simp add: print_ends_def)
qed

lemma print_ends_narrow:
  assumes "img \<noteq> []" "length (img ! 0) = w" "w < 5"
  shows "print_ends img (int w) = Inl (ColOOB 0 (int w - 5))"
proof -
  have "print_row0 img [0..min 5 (int w) - 1] = Inr ()"
    using assms by (intro print_row0_ok) auto
  moreover have "[int w - 5..int w - 1] = (int w - 5) # [int w - 4..int w - 1]"
    by (subst upto.simps) simp
  then have "print_row0 img [int w - 5..int w - 1] = Inl (ColOOB 0 (int w - 5))"
    using assms by (simp add: print_row0_def px_at_def row_at_def)
  ultimately show ?thesis by (simp add: print_ends_def)
qed

lemma reverse_rows:
  "for_each [0..int (length img) - 1]
     (\<lambda>i cur. case row_at cur i of Inl e \<Rightarrow> Inl e | Inr row \<Rightarrow> Inr (cur[nat i := rev row]))
     img = Inr (map rev img)"
proof -
  let ?body = "\<lambda>i cur. case row_at cur i of Inl e \<Rightarrow> Inl (e::fault) | Inr row \<Rightarrow> Inr (cur[nat i := rev row])"
  define I where "I k t \<longleftrightarrow> length t = length img \<and>
     (\<forall>i<length img. t ! i = (if i < k then rev (img ! i) else img ! i))" for k and t :: "'a list list"
  have "\<exists>out. for_each [0..int (length img) - 1] ?body img = Inr out \<and>
          I (length [0..int (length img) - 1]) out"
  proof (rule for_each_rule)
    show "I 0 img" by (simp add: I_def)
  next
    fix k t
    assume k: "k < length [0..int (length img) - 1]" and inv: "I k t"
    then have i: "[0..int (length img) - 1] ! k = int k" "k < length img"
      by (simp_all add: nth_upto_int)
    from inv have len: "length t = length img" by (simp add: I_def)
    have "?body (int k) t = Inr (t[k := rev (t ! k)])"
      using i(2) len by (simp add: row_at_def)
    moreover have "I (Suc k) (t[k := rev (t ! k)])"
      using inv i(2) by (auto simp add: I_def nth_list_update less_Suc_eq)
    ultimately show "\<exists>t'. ?body ([0..int (length img) - 1] ! k) t = Inr t' \<and> I (Suc k) t'"
      unfolding i(1) by blast
  qed
  then obtain out where out: "for_each [0..int (length img) - 1] ?body img = Inr out"
    "I (length [0..int (length img) - 1]) out" by blast
  from out(2) have "out = map rev img"
    by (intro nth_equalityI) (simp_all add: I_def)
  with out(1) show ?thesis by simp
qed

lemma mirror_result: "mirror img = Inr out \<Longrightarrow> out = map rev img"
  by (auto simp add: mirror_def Let_def reverse_rows split: sum.splits)

lemma mirror_wide:
  assumes "img \<noteq> []" "5 \<le> length (img ! 0)"
  shows "mirror img = Inr (map rev img)"
proof -
  have 0: "row_at img 0 = Inr (img ! 0)" using assms(1) by (simp add: row_at_def)
  have 1: "print_ends img (int (length (img ! 0))) = Inr ()"
    using assms by (intro print_ends_ok) auto
  have "map rev img \<noteq> []" "length (map rev img ! 0) = length (img ! 0)"
    using assms(1) by (simp_all add: nth_map [of 0 img rev])
  then have 2: "print_ends (map rev img) (int (length (img ! 0))) = Inr ()"
    using assms by (intro print_ends_ok) auto
  show ?thesis
    by (simp add: mirror_def Let_def 0 1 2 reverse_rows)
qed

lemma mirror_narrow:
  assumes "img \<noteq> []" "length (img ! 0) < 5"
  shows "mirror img = Inl (ColOOB 0 (int (length (img ! 0)) - 5))"
proof -
  have 0: "row_at img 0 = Inr (img ! 0)" using assms(1) by (simp add: row_at_def)
  have 1: "print_ends img (int (length (img ! 0))) = Inl (ColOOB 0 (int (length (img ! 0)) - 5))"
    using assms by (intro print_ends_narrow) auto
  show ?thesis
    by (simp add: mirror_def Let_def 0 1)
qed

lemma shape_rectangular:
  assumes "has_shape out h w"
  shows "rectangular out \<and> img_height out = h \<and> (0 < h \<longrightarrow> img_width out = w)"
proof (cases out)
  case Nil
  with assms show ?thesis by (simp add: has_shape_def rectangular_def img_height_def)
next
  case (Cons row rows)
  with assms show ?thesis
    by (simp add: has_shape_def rectangular_def img_height_def img_width_def)
qed

lemma map_rows_shape:
  assumes "\<And>row. length (f row) = length row"
  shows "img_height (map f img) = img_height img \<and> img_width (map f img) = img_width img \<and>
         (rectangular img \<longrightarrow> rectangular (map f img))"
proof (cases img)
  case Nil
  then show ?thesis by (simp add: rectangular_def img_height_def img_width_def)
next
  case (Cons row rows)
  then show ?thesis
    using assms
    by (simp add: rectangular_def img_height_def img_width_def list_all_iff)
qed

lemma row_at_no_row0_fault: "img \<noteq> [] \<Longrightarrow> row_at img i \<noteq> Inl (RowOOB 0)"
  by (cases img) (auto simp add: row_at_def)

lemma px_at_no_row0_fault: "img \<noteq> [] \<Longrightarrow> px_at img i j \<noteq> Inl (RowOOB 0)"
  by (cases img) (auto simp add: px_at_def row_at_def)

lemma px_set_no_row0_fault:
  assumes "img \<noteq> []"
  shows "case px_set img i j p of Inl e \<Rightarrow> e \<noteq> RowOOB 0 | Inr out \<Rightarrow> out \<noteq> []"
proof -
  from assms have "0 < int (length img)" by simp
  with assms show ?thesis by (auto simp add: px_set_def row_at_def)
qed

lemma blur_sum_no_row0_fault:
  assumes "temp \<noteq> []"
  shows "blur_sum temp i j \<noteq> Inl (RowOOB 0)"
proof -
  have inner: "case for_each [-1..1] (\<lambda>y (sum_r, sum_g, sum_b).
         case px_at temp (i + x) (j + y) of
           Inl e \<Rightarrow> Inl e
         | Inr p \<Rightarrow> Inr (sum_r + uint (r p), sum_g + uint (g p), sum_b + uint (b p))) s of
       Inl e \<Rightarrow> e \<noteq> RowOOB 0 | Inr s' \<Rightarrow> True" for x s
  proof (rule for_each_cases [where I = "\<lambda>_. True"])
    fix y :: int and t :: "int \<times> int \<times> int"
    show "case (case t of (sum_r, sum_g, sum_b) \<Rightarrow>
             (case px_at temp (i + x) (j + y) of
                Inl e \<Rightarrow> Inl e
              | Inr p \<Rightarrow> Inr (sum_r + uint (r p), sum_g + uint (g p), sum_b + uint (b p)))) of
          Inl e \<Rightarrow> e \<noteq> RowOOB 0 | Inr t' \<Rightarrow> True"
      using px_at_no_row0_fault [OF assms, of "i + x" "j + y"]
      by (auto split: sum.splits prod.splits)
  qed simp
  have "case blur_sum temp i j of Inl e \<Rightarrow> e \<noteq> RowOOB 0 | Inr s' \<Rightarrow> True"
    unfolding blur_sum_def
    by (rule for_each_cases [where I = "\<lambda>_. True"]) (simp_all add: inner)
  then show ?thesis by (auto split: sum.splits)
qed

lemma blur_no_row0_fault:
  assumes "img \<noteq> []"
  shows "blur img \<noteq> Inl (RowOOB 0)"
proof -
  let ?body = "\<lambda>i j cur. case blur_sum img i j of
            Inl e \<Rightarrow> Inl e
          | Inr (sum_r, sum_g, sum_b) \<Rightarrow>
              px_set cur i j \<lparr>r = word_of_int (sum_r div 9), g = word_of_int (sum_g div 9),
                              b = word_of_int (sum_b div 9)\<rparr>"
  have step: "case ?body i j t of Inl e \<Rightarrow> e \<noteq> RowOOB 0 | Inr t' \<Rightarrow> t' \<noteq> []"
    if "t \<noteq> []" for i j and t :: image
  proof (cases "blur_sum img i j")
    case (Inl e)
    with blur_sum_no_row0_fault [OF assms, of i j] show ?thesis by simp
  next
    case (Inr s)
    obtain sr sg sb where s: "s = (sr, sg, sb)" by (cases s)
    show ?thesis
      using px_set_no_row0_fault [OF that] by (simp add: Inr s)
  qed
  have inner: "case for_each js (?body i) t of Inl e \<Rightarrow> e \<noteq> RowOOB 0 | Inr t' \<Rightarrow> t' \<noteq> []"
    if "t \<noteq> []" for i js and t :: image
    using that by (rule for_each_cases) (rule step)
  have "case for_each is (\<lambda>i. for_each js (?body i)) img of
          Inl e \<Rightarrow> e \<noteq> RowOOB 0 | Inr t' \<Rightarrow> t' \<noteq> []" for "is" js
    using assms by (rule for_each_cases) (rule inner)
  from this [of "[1..int (length img) - 2]" "[1..int (length (img ! 0)) - 2]"]
  show ?thesis
    using assms by (auto simp add: blur_def Let_def row_at_0 split: sum.splits)
qed

lemma compress_no_row0_fault:
  assumes "img \<noteq> []"
  shows "compress img \<noteq> Inl (RowOOB 0)"
proof -
  let ?body = "\<lambda>i j comp. case px_at img (2 * i + 1) (2 * j + 1) of
                      Inl e \<Rightarrow> Inl e
                    | Inr p \<Rightarrow> px_set comp i j p"
  have step: "case ?body i j t of Inl e \<Rightarrow> e \<noteq> RowOOB i | Inr t' \<Rightarrow> length t' = length t"
    if "0 \<le> i" "i < int (length t)" for i j and t :: image
    using that px_at_no_row0_fault [OF assms, of "2 * i + 1" "2 * j + 1"]
    by (auto simp add: px_set_def row_at_def px_at_def split: sum.splits)
  have inner: "case for_each js (?body i) t of
                 Inl e \<Rightarrow> e \<noteq> RowOOB 0 | Inr t' \<Rightarrow> length t' = n"
    if "0 \<le> i" "i < int n" "length t = n" for i js n and t :: image
  proof (rule for_each_cases [where I = "\<lambda>t. length t = n"])
    fix j u assume "length (u::image) = n"
    with step [of i u j] that
    show "case ?body i j u of Inl e \<Rightarrow> e \<noteq> RowOOB 0 | Inr t' \<Rightarrow> length t' = n"
      by (auto simp add: px_set_def row_at_def px_at_def split: sum.splits)
  qed (rule that)
  have "case for_each [0..int n - 1] (\<lambda>i. for_each js (?body i)) t of
          Inl e \<Rightarrow> e \<noteq> RowOOB 0 | Inr t' \<Rightarrow> length t' = n"
    if "length t = n" for js n and t :: image
    using that
  proof (rule for_each_cases [where I = "\<lambda>t. length t = n"])
    fix i u assume "i \<in> set [0..int n - 1]" "length (u::image) = n"
    then show "case for_each js (?body i) u of
        Inl e \<Rightarrow> e \<noteq> RowOOB 0 | Inr t' \<Rightarrow> length t' = n"
      by (intro inner) auto
  qed
  from this [of "replicate (length img div 2) (replicate (length (img ! 0) div 2) \<lparr>r = 0, g = 0, b = 0\<rparr>)"
      "length img div 2" "[0..int (length (img ! 0)) div 2 - 1]"]
  show ?thesis
    using assms
    by (auto simp add: compress_def Let_def row_at_0 zdiv_int nat_div_distrib split: sum.splits)
qed

lemma print_row0_no_row0_fault: "img \<noteq> [] \<Longrightarrow> print_row0 img js \<noteq> Inl (RowOOB 0)"
proof -
  assume ne: "img \<noteq> []"
  have "case print_row0 img js of Inl e \<Rightarrow> e \<noteq> RowOOB 0 | Inr u \<Rightarrow> True"
    unfolding print_row0_def
  proof (rule for_each_cases [where I = "\<lambda>_. True"])
    fix j :: int and u :: unit
    show "case (case px_at img 0 j of Inl e \<Rightarrow> Inl e | Inr p \<Rightarrow> Inr ()) of
            Inl e \<Rightarrow> e \<noteq> RowOOB 0 | Inr t' \<Rightarrow> True"
      using px_at_no_row0_fault [OF ne, of 0 j] by (auto split: sum.splits)
  qed simp
  then show ?thesis by (auto split: sum.splits)
qed

lemma print_ends_no_row0_fault: "img \<noteq> [] \<Longrightarrow> print_ends img w \<noteq> Inl (RowOOB 0)"
  using print_row0_no_row0_fault [of img]
  by (auto simp add: print_ends_def split: sum.splits)

lemma mirror_no_row0_fault:
  assumes "img \<noteq> []"
  shows "mirror img \<noteq> Inl (RowOOB 0)"
proof -
  have "map rev img \<noteq> []" using assms by simp
  then show ?thesis
    using assms print_ends_no_row0_fault [of img] print_ends_no_row0_fault [of "map rev img"]
    by (auto simp add: mirror_def Let_def row_at_0 reverse_rows split: sum.splits)
qed

section \<open>Lemmas on streams\<close>

lemma isdigit_not_space: "isdigit c \<Longrightarrow> \<not> isspace c"
  by (auto simp add: isdigit_def isspace_def)

lemma isdigit_not_sign: "isdigit c \<Longrightarrow> c \<noteq> 45 \<and> c \<noteq> 43"
  by (auto simp add: isdigit_def)

lemma decimal_foldl_nonneg:
  "list_all isdigit ds \<Longrightarrow> 0 \<le> acc \<Longrightarrow> 0 \<le> foldl (\<lambda>acc c. 10 * acc + (uint c - 48)) acc ds"
  by (induction ds arbitrary: acc) (auto simp add: isdigit_def)

lemma decimal_nonneg: "list_all isdigit ds \<Longrightarrow> 0 \<le> decimal ds"
  unfolding decimal_def by (rule decimal_foldl_nonneg) simp_all

lemma takeWhile_digits:
  assumes "list_all isdigit ds" "tail_ok rest"
  shows "takeWhile isdigit (ds @ rest) = ds" "dropWhile isdigit (ds @ rest) = rest"
proof -
  from assms(2) have t: "takeWhile isdigit rest = []" "dropWhile isdigit rest = rest"
    by (cases rest; simp add: tail_ok_def)+
  from assms(1) have all: "\<And>x. x \<in> set ds \<Longrightarrow> isdigit x" by (simp add: list_all_iff)
  show "takeWhile isdigit (ds @ rest) = ds" using all t by (simp add: takeWhile_append2)
  show "dropWhile isdigit (ds @ rest) = rest" using all t by (simp add: dropWhile_append2)
qed

lemma whitespace_all: "whitespace ws \<Longrightarrow> list_all isspace ws"
  by (simp add: whitespace_def)

lemma split_sign_digit: "isdigit c \<Longrightarrow> split_sign (c # cs) = (False, c # cs)"
  by (simp add: split_sign_def isdigit_not_sign)

lemma extract_int_token:
  assumes "good s" "buf s = lead @ ds @ rest" "list_all isspace lead" "number ds" "tail_ok rest"
  shows "extract_int s v = (advance s rest, decimal ds)"
proof -
  from assms(4) obtain d ds' where ds: "ds = d # ds'" "isdigit d" "list_all isdigit ds"
    "decimal ds \<le> INT_MAX"
    by (cases ds) (auto simp add: number_def)
  from assms(3) have lead: "\<And>x. x \<in> set lead \<Longrightarrow> isspace x" by (simp add: list_all_iff)
  have skip: "dropWhile isspace (buf s) = ds @ rest"
    using lead ds(1,2) assms(2) by (simp add: dropWhile_append2 isdigit_not_space)
  have sen: "sentry False s = (s\<lparr>buf := ds @ rest\<rparr>, True)"
    using assms(1) skip ds(1) by (simp add: sentry_def)
  have sign: "split_sign (ds @ rest) = (False, ds @ rest)"
    using split_sign_digit [OF ds(2)] ds(1) by simp
  have lo: "\<not> decimal ds < INT_MIN" "\<not> INT_MAX < decimal ds" "ds \<noteq> []"
    using decimal_nonneg [OF ds(3)] ds(1,4) by (simp_all add: INT_MIN_def)
  show ?thesis
    by (simp add: extract_int_def sen sign takeWhile_digits [OF ds(3) assms(5)] lo advance_def
        Let_def)
qed

lemma extract_string_token:
  assumes "good s" "buf s = tok @ rest" "tok \<noteq> []" "list_all (\<lambda>c. \<not> isspace c) tok"
    and "whitespace rest'" "rest = rest' @ after"
  shows "extract_string s str = (s\<lparr>buf := rest\<rparr>, tok)"
proof -
  from assms(3,4) obtain c cs where tok: "tok = c # cs" "\<not> isspace c" by (cases tok) auto
  from assms(5,6) obtain w ws where rest: "rest = w # ws" "isspace w"
    by (cases rest') (auto simp add: whitespace_def)
  from assms(4) have all: "\<And>x. x \<in> set tok \<Longrightarrow> \<not> isspace x" by (simp add: list_all_iff)
  have sen: "sentry False s = (s\<lparr>buf := tok @ rest\<rparr>, True)"
    using assms(1,2) tok by (simp add: sentry_def)
  have "takeWhile (\<lambda>c. \<not> isspace c) (tok @ rest) = tok"
    "dropWhile (\<lambda>c. \<not> isspace c) (tok @ rest) = rest"
    using all rest by (simp_all add: takeWhile_append2 dropWhile_append2)
  then show ?thesis
    using rest(1) by (simp add: extract_string_def sen Let_def)
qed

lemma whitespace_tail_ok: "whitespace ws \<Longrightarrow> tail_ok (ws @ after)"
  by (cases ws) (auto simp add: whitespace_def tail_ok_def dest: isdigit_not_space)

lemma advance_nonempty: "rest \<noteq> [] \<Longrightarrow> good s \<Longrightarrow> good (advance s rest) \<and> buf (advance s rest) = rest"
  by (simp add: advance_def good_def)

section \<open>Lemmas on the reader of print_ppm.cpp\<close>

text \<open>The header: magic, then width, height and maximum value, each after white space.\<close>

lemma load_header:
  assumes "format = bytes ''P3'' \<or> format = bytes ''P6''"
    and "whitespace ws1" "number dw" "whitespace ws2" "number dh" "whitespace ws3" "number dm"
    and "tail_ok rest"
    and s: "s = stream_of (format @ ws1 @ dw @ ws2 @ dh @ ws3 @ dm @ rest)"
  shows "\<exists>file1 file2 file3.
           extract_string s str = (file1, format) \<and>
           extract_int file1 v1 = (file2, decimal dw) \<and>
           extract_int file2 v2 = (file3, decimal dh) \<and>
           extract_int file3 v3 = (advance file3 rest, decimal dm) \<and> good file3"
proof -
  have gs: "good s" by (simp add: s good_def stream_of_def)
  have fmt: "format \<noteq> []" "list_all (\<lambda>c. \<not> isspace c) format"
    using assms(1) by (auto simp add: bytes_def isspace_def)
  let ?r1 = "ws1 @ dw @ ws2 @ dh @ ws3 @ dm @ rest"
  let ?f1 = "s\<lparr>buf := ?r1\<rparr>"
  have 1: "extract_string s str = (?f1, format)"
    using gs _ fmt assms(2) by (rule extract_string_token) (simp_all add: s stream_of_def)
  have g1: "good ?f1" using gs by (simp add: good_def)
  let ?r2 = "ws2 @ dh @ ws3 @ dm @ rest"
  have w2: "?r2 \<noteq> []" using assms(4) by (simp add: whitespace_def)
  have 2: "extract_int ?f1 v1 = (advance ?f1 ?r2, decimal dw)"
    by (rule extract_int_token [where lead = ws1])
      (use g1 assms(2-8) in \<open>simp_all add: whitespace_all whitespace_tail_ok\<close>)
  have g2: "good (advance ?f1 ?r2)" "buf (advance ?f1 ?r2) = ?r2"
    using advance_nonempty [OF w2 g1] by simp_all
  let ?r3 = "ws3 @ dm @ rest"
  have w3: "?r3 \<noteq> []" using assms(6) by (simp add: whitespace_def)
  have 3: "extract_int (advance ?f1 ?r2) v2 = (advance (advance ?f1 ?r2) ?r3, decimal dh)"
    by (rule extract_int_token [where lead = ws2])
      (use g2 assms(2-8) in \<open>simp_all add: whitespace_all whitespace_tail_ok\<close>)
  let ?f3 = "advance (advance ?f1 ?r2) ?r3"
  have g3: "good ?f3" "buf ?f3 = ?r3"
    using advance_nonempty [OF w3 g2(1)] by simp_all
  have 4: "extract_int ?f3 v3 = (advance ?f3 rest, decimal dm)"
    by (rule extract_int_token [where lead = ws3])
      (use g3 assms(2-8) in \<open>simp_all add: whitespace_all\<close>)
  from 1 2 3 4 g3(1) show ?thesis by blast
qed

lemma scan_row:
  fixes body :: "int \<Rightarrow> istream \<times> 'a list list \<Rightarrow> failure + (istream \<times> 'a list list)"
  assumes shape: "has_shape img H W" and i: "i < H"
    and start: "J (i * W) s"
    and step: "\<And>j t cur. j < W \<Longrightarrow> J (i * W + j) t \<Longrightarrow> has_shape cur H W \<Longrightarrow>
        \<exists>t' cur'. body (int j) (t, cur) = Inr (t', cur') \<and> J (i * W + j + 1) t' \<and>
          has_shape cur' H W \<and>
          (\<forall>i'<H. \<forall>j'<W. cur' ! i' ! j' = (if i' = i \<and> j' = j then V j else cur ! i' ! j'))"
  shows "\<exists>s' out. for_each [0..int W - 1] body (s, img) = Inr (s', out) \<and>
          J (i * W + W) s' \<and> has_shape out H W \<and>
          (\<forall>i'<H. \<forall>j'<W. out ! i' ! j' = (if i' = i then V j' else img ! i' ! j'))"
proof -
  define I where "I k st \<longleftrightarrow> J (i * W + k) (fst st) \<and> has_shape (snd st) H W \<and>
      (\<forall>i'<H. \<forall>j'<W. snd st ! i' ! j' = (if i' = i \<and> j' < k then V j' else img ! i' ! j'))"
    for k and st :: "istream \<times> 'a list list"
  have "\<exists>st. for_each [0..int W - 1] body (s, img) = Inr st \<and> I (length [0..int W - 1]) st"
  proof (rule for_each_rule)
    show "I 0 (s, img)" using shape start by (simp add: I_def)
  next
    fix k st
    assume k: "k < length [0..int W - 1]" and inv: "I k st"
    then have j: "[0..int W - 1] ! k = int k" "k < W"
      by (simp_all add: nth_upto_int)
    obtain t cur where st: "st = (t, cur)" by (cases st)
    from inv st have a: "J (i * W + k) t" "has_shape cur H W"
      and old: "\<forall>i'<H. \<forall>j'<W. cur ! i' ! j' = (if i' = i \<and> j' < k then V j' else img ! i' ! j')"
      by (simp_all add: I_def)
    from step [OF j(2) a] obtain t' cur' where new: "body (int k) (t, cur) = Inr (t', cur')"
      "J (i * W + k + 1) t'" "has_shape cur' H W"
      "\<forall>i'<H. \<forall>j'<W. cur' ! i' ! j' = (if i' = i \<and> j' = k then V k else cur ! i' ! j')"
      by blast
    have "I (Suc k) (t', cur')"
      unfolding I_def
    proof (intro conjI allI impI)
      fix i' j' assume "i' < H" "j' < W"
      with new(4) old
      show "snd (t', cur') ! i' ! j' = (if i' = i \<and> j' < Suc k then V j' else img ! i' ! j')"
        by (auto simp add: less_Suc_eq)
    qed (use new in simp_all)
    with new(1) st j(1) show "\<exists>st'. body ([0..int W - 1] ! k) st = Inr st' \<and> I (Suc k) st'"
      by simp
  qed
  then obtain st where st: "for_each [0..int W - 1] body (s, img) = Inr st"
    "I (length [0..int W - 1]) st" by blast
  obtain s' out where so: "st = (s', out)" by (cases st)
  from st(2) so have "J (i * W + W) s'" "has_shape out H W"
    "\<forall>i'<H. \<forall>j'<W. out ! i' ! j' = (if i' = i then V j' else img ! i' ! j')"
    by (simp_all add: I_def)
  with st(1) so show ?thesis by blast
qed

lemma scan_loop:
  fixes body :: "int \<Rightarrow> int \<Rightarrow> istream \<times> 'a list list \<Rightarrow> failure + (istream \<times> 'a list list)"
  assumes shape: "has_shape init H W"
    and start: "J 0 s0"
    and step: "\<And>i j t cur. i < H \<Longrightarrow> j < W \<Longrightarrow> J (i * W + j) t \<Longrightarrow> has_shape cur H W \<Longrightarrow>
        \<exists>t' cur'. body (int i) (int j) (t, cur) = Inr (t', cur') \<and> J (i * W + j + 1) t' \<and>
          has_shape cur' H W \<and>
          (\<forall>i'<H. \<forall>j'<W. cur' ! i' ! j' = (if i' = i \<and> j' = j then V i j else cur ! i' ! j'))"
  shows "\<exists>s' out. for_each [0..int H - 1] (\<lambda>i. for_each [0..int W - 1] (body i)) (s0, init) =
            Inr (s', out) \<and>
          has_shape out H W \<and> (\<forall>i<H. \<forall>j<W. out ! i ! j = V i j)"
proof -
  define I where "I k st \<longleftrightarrow> J (k * W) (fst st) \<and> has_shape (snd st) H W \<and>
      (\<forall>i'<H. \<forall>j'<W. snd st ! i' ! j' = (if i' < k then V i' j' else init ! i' ! j'))"
    for k and st :: "istream \<times> 'a list list"
  have "\<exists>st. for_each [0..int H - 1] (\<lambda>i. for_each [0..int W - 1] (body i)) (s0, init) = Inr st \<and>
          I (length [0..int H - 1]) st"
  proof (rule for_each_rule)
    show "I 0 (s0, init)" using shape start by (simp add: I_def)
  next
    fix k st
    assume k: "k < length [0..int H - 1]" and inv: "I k st"
    then have i: "[0..int H - 1] ! k = int k" "k < H"
      by (simp_all add: nth_upto_int)
    obtain t cur where st: "st = (t, cur)" by (cases st)
    from inv st have a: "J (k * W) t" "has_shape cur H W"
      and old: "\<forall>i'<H. \<forall>j'<W. cur ! i' ! j' = (if i' < k then V i' j' else init ! i' ! j')"
      by (simp_all add: I_def)
    from scan_row [where J = J and V = "V k" and body = "body (int k)", OF a(2) i(2) a(1)]
      step [OF i(2)]
    obtain t' cur' where new: "for_each [0..int W - 1] (body (int k)) (t, cur) = Inr (t', cur')"
      "J (k * W + W) t'" "has_shape cur' H W"
      "\<forall>i'<H. \<forall>j'<W. cur' ! i' ! j' = (if i' = k then V k j' else cur ! i' ! j')"
      by blast
    have "I (Suc k) (t', cur')"
      unfolding I_def
    proof (intro conjI allI impI)
      show "J (Suc k * W) (fst (t', cur'))" using new(2) by (simp add: add.commute)
    next
      fix i' j' assume "i' < H" "j' < W"
      with new(4) old
      show "snd (t', cur') ! i' ! j' = (if i' < Suc k then V i' j' else init ! i' ! j')"
        by (auto simp add: less_Suc_eq)
    qed (use new in simp_all)
    with new(1) st i(1)
    show "\<exists>st'. for_each [0..int W - 1] (body ([0..int H - 1] ! k)) st = Inr st' \<and> I (Suc k) st'"
      by simp
  qed
  then obtain st where st:
    "for_each [0..int H - 1] (\<lambda>i. for_each [0..int W - 1] (body i)) (s0, init) = Inr st"
    "I (length [0..int H - 1]) st" by blast
  obtain s' out where so: "st = (s', out)" by (cases st)
  from st(2) so have "has_shape out H W" "\<forall>i<H. \<forall>j<W. out ! i ! j = V i j"
    by (simp_all add: I_def)
  with st(1) so show ?thesis by blast
qed

lemma grid_of_eq:
  assumes "has_shape out H W"
    and "\<forall>i<H. \<forall>j<W. out ! i ! j =
           \<lparr>r_int = sample (3 * (i * W + j)), g_int = sample (3 * (i * W + j) + 1),
            b_int = sample (3 * (i * W + j) + 2)\<rparr>"
  shows "out = grid_of H W sample"
proof (rule nth_equalityI)
  show "length out = length (grid_of H W sample)"
    using assms(1) by (simp add: grid_of_def has_shape_length)
next
  fix i assume "i < length out"
  then have i: "i < H" using assms(1) by (simp add: has_shape_length)
  show "out ! i = grid_of H W sample ! i"
  proof (rule nth_equalityI)
    show "length (out ! i) = length (grid_of H W sample ! i)"
      using i has_shape_nth [OF assms(1) i] by (simp add: grid_of_def)
  next
    fix j assume "j < length (out ! i)"
    then have "j < W" using has_shape_nth [OF assms(1) i] by simp
    with i assms(2) show "out ! i ! j = grid_of H W sample ! i ! j"
      by (simp add: grid_of_def)
  qed
qed

lemma index_bound: "i < H \<Longrightarrow> j < W \<Longrightarrow> i * W + j < H * (W::nat)"
proof -
  assume "i < H" "j < W"
  then have "i * W + j < i * W + W" by simp
  also have "\<dots> = Suc i * W" by simp
  also have "\<dots> \<le> H * W" using \<open>i < H\<close> by (intro mult_le_mono1) simp
  finally show ?thesis .
qed

subsection \<open>The binary pixel loop\<close>

lemma load_P6_pixels:
  assumes "3 * (H * W) \<le> length body"
  shows "\<exists>s'. load_pixels (bytes ''P6'') (int W) (int H)
           (stream_of body, replicate H (replicate W \<lparr>r_int = 0, g_int = 0, b_int = 0\<rparr>)) =
         Inr (s', grid_of H W (\<lambda>k. uint (body ! k)))"
proof -
  define J where "J k s \<longleftrightarrow> s = stream_of (drop (3 * k) body)"
    for k s
  let ?V = "\<lambda>i j. \<lparr>r_int = uint (body ! (3 * (i * W + j))),
                    g_int = uint (body ! (3 * (i * W + j) + 1)),
                    b_int = uint (body ! (3 * (i * W + j) + 2))\<rparr>"
  have "\<exists>s' out. for_each [0..int H - 1] (\<lambda>i. for_each [0..int W - 1] (read_P6_pixel i))
            (stream_of body, replicate H (replicate W \<lparr>r_int = 0, g_int = 0, b_int = 0\<rparr>)) =
            Inr (s', out) \<and>
          has_shape out H W \<and> (\<forall>i<H. \<forall>j<W. out ! i ! j = ?V i j)"
  proof (rule scan_loop [where J = J])
    show "has_shape (replicate H (replicate W \<lparr>r_int = 0, g_int = 0, b_int = 0\<rparr>)) H W"
      by (rule has_shape_replicate)
  next
    show "J 0 (stream_of body)" by (simp add: J_def)
  next
    fix i j t and cur :: "RGB_int list list"
    assume ij: "i < H" "j < W" and t: "J (i * W + j) t" and cur: "has_shape cur H W"
    define k where "k = i * W + j"
    define got where "got = take 3 (drop (3 * k) body)"
    define p where "p = ?V i j"
    define t' where "t' = stream_of (drop (3 * (k + 1)) body)"
    have k: "3 * k + 3 \<le> length body"
      using index_bound [OF ij] assms by (simp add: k_def)
    have rd: "read t 3 = (t', got)"
      using t k by (simp add: J_def read_def sentry_def good_def Let_def add.commute k_def
          got_def t'_def stream_of_def)
    have len: "\<not> length got < 3" using k by (simp add: got_def)
    have "got ! 0 = body ! (3 * k)" "got ! 1 = body ! (3 * k + 1)" "got ! 2 = body ! (3 * k + 2)"
      using k by (simp_all add: got_def)
    then have p_eq: "\<lparr>r_int = uint (got ! 0), g_int = uint (got ! 1), b_int = uint (got ! 2)\<rparr> = p"
      by (simp add: p_def k_def)
    from px_set_shape [OF cur, of "int i" "int j" p] ij
    obtain cur' where cur': "px_set cur (int i) (int j) p = Inr cur'" "has_shape cur' H W"
      "\<forall>i'<H. \<forall>j'<W. cur' ! i' ! j' = (if i' = i \<and> j' = j then p else cur ! i' ! j')"
      by auto
    have "read_P6_pixel (int i) (int j) (t, cur) = Inr (t', cur')"
      by (simp only: read_P6_pixel_def rd len p_eq cur'(1) prod.case sum.case if_False)
    moreover have "J (i * W + j + 1) t'" by (simp add: J_def t'_def k_def)
    ultimately show "\<exists>t' cur'. read_P6_pixel (int i) (int j) (t, cur) = Inr (t', cur') \<and>
        J (i * W + j + 1) t' \<and> has_shape cur' H W \<and>
        (\<forall>i'<H. \<forall>j'<W. cur' ! i' ! j' = (if i' = i \<and> j' = j then ?V i j else cur ! i' ! j'))"
      using cur'(2,3) unfolding p_def by blast
  qed
  then obtain s' out where out: "for_each [0..int H - 1] (\<lambda>i. for_each [0..int W - 1] (read_P6_pixel i))
            (stream_of body, replicate H (replicate W \<lparr>r_int = 0, g_int = 0, b_int = 0\<rparr>)) =
            Inr (s', out)"
    "has_shape out H W" "\<forall>i<H. \<forall>j<W. out ! i ! j = ?V i j"
    by blast
  have "out = grid_of H W (\<lambda>k. uint (body ! k))"
    using out(2,3) by (rule grid_of_eq)
  moreover have "bytes ''P6'' \<noteq> bytes ''P3''" by (simp add: bytes_def)
  ultimately show ?thesis
    using out(1) by (simp add: load_pixels_def)
qed

subsection \<open>The plain pixel loop\<close>

lemma tokens_from_step:
  "m < length samples \<Longrightarrow>
   tokens_from samples trailer m =
     fst (samples ! m) @ snd (samples ! m) @ tokens_from samples trailer (Suc m)"
  by (simp add: tokens_from_def token_bytes_def Cons_nth_drop_Suc [symmetric])

lemma tokens_from_tail_ok:
  assumes "list_all token_ok samples" "tail_ok trailer"
  shows "tail_ok (tokens_from samples trailer m)"
proof (cases "m < length samples")
  case True
  with assms(1) have "whitespace (fst (samples ! m))"
    by (simp add: list_all_length token_ok_def)
  then show ?thesis
    using True by (simp add: tokens_from_step whitespace_tail_ok)
next
  case False
  with assms(2) show ?thesis by (simp add: tokens_from_def)
qed

lemma extract_sample:
  assumes ok: "list_all token_ok samples" "tail_ok trailer"
    and m: "m < length samples"
    and s: "before_token samples trailer m s"
  shows "\<exists>s'. extract_int s v = (s', token_value (samples ! m)) \<and>
           (Suc m < length samples \<longrightarrow> before_token samples trailer (Suc m) s')"
proof -
  from s obtain lead where lead: "good s" "list_all isspace lead"
    "buf s = lead @ snd (samples ! m) @ tokens_from samples trailer (Suc m)"
    by (auto simp add: before_token_def)
  from ok(1) m have num: "number (snd (samples ! m))"
    by (simp add: list_all_length token_ok_def)
  let ?rest = "tokens_from samples trailer (Suc m)"
  have ex: "extract_int s v = (advance s ?rest, token_value (samples ! m))"
    unfolding token_value_def
    using lead(1,3,2) num tokens_from_tail_ok [OF ok] by (rule extract_int_token)
  have "before_token samples trailer (Suc m) (advance s ?rest)" if "Suc m < length samples"
  proof -
    from ok(1) that have ws: "whitespace (fst (samples ! Suc m))"
      by (simp add: list_all_length token_ok_def)
    have unfold: "?rest = fst (samples ! Suc m) @ snd (samples ! Suc m) @
        tokens_from samples trailer (Suc (Suc m))"
      using that by (rule tokens_from_step)
    with ws have "?rest \<noteq> []" by (simp add: whitespace_def)
    from advance_nonempty [OF this lead(1)] unfold whitespace_all [OF ws]
    show ?thesis unfolding before_token_def by metis
  qed
  with ex show ?thesis by blast
qed

lemma load_P3_pixels:
  assumes ok: "list_all token_ok samples" "tail_ok trailer"
    and len: "length samples = 3 * (H * W)"
    and start: "0 < H * W \<longrightarrow> before_token samples trailer 0 s0"
  shows "\<exists>s'. load_pixels (bytes ''P3'') (int W) (int H)
           (s0, replicate H (replicate W \<lparr>r_int = 0, g_int = 0, b_int = 0\<rparr>)) =
         Inr (s', grid_of H W (\<lambda>k. token_value (samples ! k)))"
proof -
  define J where "J k s \<longleftrightarrow> (k < H * W \<longrightarrow> before_token samples trailer (3 * k) s)" for k s
  let ?V = "\<lambda>i j. \<lparr>r_int = token_value (samples ! (3 * (i * W + j))),
                    g_int = token_value (samples ! (3 * (i * W + j) + 1)),
                    b_int = token_value (samples ! (3 * (i * W + j) + 2))\<rparr>"
  have "\<exists>s' out. for_each [0..int H - 1] (\<lambda>i. for_each [0..int W - 1] (read_P3_pixel i))
            (s0, replicate H (replicate W \<lparr>r_int = 0, g_int = 0, b_int = 0\<rparr>)) = Inr (s', out) \<and>
          has_shape out H W \<and> (\<forall>i<H. \<forall>j<W. out ! i ! j = ?V i j)"
  proof (rule scan_loop [where J = J])
    show "has_shape (replicate H (replicate W \<lparr>r_int = 0, g_int = 0, b_int = 0\<rparr>)) H W"
      by (rule has_shape_replicate)
  next
    show "J 0 s0" using start by (simp add: J_def)
  next
    fix i j t and cur :: "RGB_int list list"
    assume ij: "i < H" "j < W" and t: "J (i * W + j) t" and cur: "has_shape cur H W"
    define k where "k = i * W + j"
    define p where "p = ?V i j"
    define q where "q = cur ! i ! j"
    have k: "k < H * W" using ij unfolding k_def by (rule index_bound)
    then have m: "3 * k < length samples" "Suc (3 * k) < length samples"
      "Suc (Suc (3 * k)) < length samples"
      using len by simp_all
    from t k have b0: "before_token samples trailer (3 * k) t" by (simp add: J_def k_def)
    have old: "px_at cur (int i) (int j) = Inr q"
      using px_at_shape [OF cur, of "int i" "int j"] ij by (simp add: q_def)
    from extract_sample [OF ok m(1) b0, of "r_int q"] m(2)
    obtain t1 where t1: "extract_int t (r_int q) = (t1, token_value (samples ! (3 * k)))"
      "before_token samples trailer (Suc (3 * k)) t1" by blast
    from extract_sample [OF ok m(2) t1(2), of "g_int q"] m(3)
    obtain t2 where t2: "extract_int t1 (g_int q) = (t2, token_value (samples ! Suc (3 * k)))"
      "before_token samples trailer (Suc (Suc (3 * k))) t2" by blast
    from extract_sample [OF ok m(3) t2(2), of "b_int q"]
    obtain t3 where t3: "extract_int t2 (b_int q) = (t3, token_value (samples ! Suc (Suc (3 * k))))"
      "Suc (Suc (Suc (3 * k))) < length samples \<longrightarrow>
         before_token samples trailer (Suc (Suc (Suc (3 * k)))) t3" by blast
    have p_eq: "\<lparr>r_int = token_value (samples ! (3 * k)),
                 g_int = token_value (samples ! Suc (3 * k)),
                 b_int = token_value (samples ! Suc (Suc (3 * k)))\<rparr> = p"
      by (simp add: p_def k_def)
    from px_set_shape [OF cur, of "int i" "int j" p] ij
    obtain cur' where cur': "px_set cur (int i) (int j) p = Inr cur'" "has_shape cur' H W"
      "\<forall>i'<H. \<forall>j'<W. cur' ! i' ! j' = (if i' = i \<and> j' = j then p else cur ! i' ! j')"
      by auto
    have "read_P3_pixel (int i) (int j) (t, cur) = Inr (t3, cur')"
      by (simp only: read_P3_pixel_def old t1(1) t2(1) t3(1) p_eq cur'(1) prod.case sum.case)
    moreover have "J (i * W + j + 1) t3"
    proof -
      have "3 * (k + 1) = Suc (Suc (Suc (3 * k)))" by simp
      moreover have "k + 1 < H * W \<Longrightarrow> Suc (Suc (Suc (3 * k))) < length samples"
        using len by simp
      ultimately show ?thesis using t3(2) unfolding J_def k_def by metis
    qed
    ultimately show "\<exists>t' cur'. read_P3_pixel (int i) (int j) (t, cur) = Inr (t', cur') \<and>
        J (i * W + j + 1) t' \<and> has_shape cur' H W \<and>
        (\<forall>i'<H. \<forall>j'<W. cur' ! i' ! j' = (if i' = i \<and> j' = j then ?V i j else cur ! i' ! j'))"
      using cur'(2,3) unfolding p_def by blast
  qed
  then obtain s' out where out: "for_each [0..int H - 1] (\<lambda>i. for_each [0..int W - 1] (read_P3_pixel i))
            (s0, replicate H (replicate W \<lparr>r_int = 0, g_int = 0, b_int = 0\<rparr>)) = Inr (s', out)"
    "has_shape out H W" "\<forall>i<H. \<forall>j<W. out ! i ! j = ?V i j"
    by blast
  have "out = grid_of H W (\<lambda>k. token_value (samples ! k))"
    using out(2,3) by (rule grid_of_eq)
  then show ?thesis
    using out(1) by (simp add: load_pixels_def)
qed

lemma token_value_nonneg: "token_ok t \<Longrightarrow> 0 \<le> token_value t"
  by (simp add: token_ok_def number_def token_value_def decimal_nonneg)

lemma istream_buf_update: "s\<lparr>buf := bs\<rparr> = \<lparr>buf = bs, eofbit = eofbit s, failbit = failbit s\<rparr>"
  by (cases s) simp

lemma resize_empty: "resize [] n x = replicate n x"
  by (simp add: resize_def)

lemma loadPPM_binary:
  assumes regular: "fs filename = Regular content"
    and layout: "binary_file content tw th tm c body"
    and empty: "image_var vars = []"
  shows "loadPPM fs filename vars =
           Inr (True, loaded (bytes ''P6'') tw th (\<lambda>k. uint (body ! k)))"
proof -
  let ?W = "token_value tw" and ?H = "token_value th"
  let ?s = "stream_of content"
  from layout have ok: "token_ok tw" "token_ok th" "token_ok tm" "isspace c"
    and len: "3 * ?W * ?H \<le> int (length body)"
    and content: "content = bytes ''P6'' @ fst tw @ snd tw @ fst th @ snd th @ fst tm @ snd tm @ c # body"
    by (simp_all add: binary_file_def token_bytes_def)
  have tail: "tail_ok (c # body)" using ok(4) by (auto simp add: tail_ok_def dest: isdigit_not_space)
  have "\<exists>file1 file2 file3.
           extract_string ?s (format_var vars) = (file1, bytes ''P6'') \<and>
           extract_int file1 (width_var vars) = (file2, decimal (snd tw)) \<and>
           extract_int file2 (height_var vars) = (file3, decimal (snd th)) \<and>
           extract_int file3 0 = (advance file3 (c # body), decimal (snd tm)) \<and> good file3"
    by (rule load_header [where ?ws1.0 = "fst tw" and ?ws2.0 = "fst th" and ?ws3.0 = "fst tm"])
      (use ok tail content in \<open>simp_all add: token_ok_def\<close>)
  then obtain file1 file2 file3 where hd:
    "extract_string ?s (format_var vars) = (file1, bytes ''P6'')"
    "extract_int file1 (width_var vars) = (file2, ?W)"
    "extract_int file2 (height_var vars) = (file3, ?H)"
    "extract_int file3 0 = (advance file3 (c # body), decimal (snd tm))" "good file3"
    unfolding token_value_def by blast
  have ign: "ignore (advance file3 (c # body)) = stream_of body"
    using hd(5)
    by (simp add: ignore_def sentry_def advance_def good_def istream_buf_update stream_of_def)
  have nn: "0 \<le> ?W" "0 \<le> ?H" using ok by (simp_all add: token_value_nonneg)
  have "int (3 * (nat ?H * nat ?W)) = 3 * ?W * ?H" using nn by simp
  with len have "3 * (nat ?H * nat ?W) \<le> length body" by linarith
  from load_P6_pixels [OF this] nn
  obtain s' where px: "load_pixels (bytes ''P6'') ?W ?H
           (stream_of body,
            replicate (nat ?H) (replicate (nat ?W) \<lparr>r_int = 0, g_int = 0, b_int = 0\<rparr>)) =
         Inr (s', grid_of (nat ?H) (nat ?W) (\<lambda>k. uint (body ! k)))"
    by auto
  show ?thesis
    using nn
    by (simp add: loadPPM_def open_in_def regular hd ign empty resize_empty px loaded_def)
qed

lemma loadPPM_plain:
  assumes regular: "fs filename = Regular content"
    and layout: "plain_file content tw th tm samples trailer"
    and empty: "image_var vars = []"
  shows "loadPPM fs filename vars =
           Inr (True, loaded (bytes ''P3'') tw th (\<lambda>k. token_value (samples ! k)))"
proof -
  let ?W = "token_value tw" and ?H = "token_value th"
  let ?s = "stream_of content"
  let ?rest = "tokens_from samples trailer 0"
  from layout have ok: "token_ok tw" "token_ok th" "token_ok tm"
    and samples: "list_all token_ok samples" "tail_ok trailer"
    and len: "int (length samples) = 3 * ?W * ?H"
    and content: "content = bytes ''P3'' @ fst tw @ snd tw @ fst th @ snd th @ fst tm @ snd tm @ ?rest"
    by (simp_all add: plain_file_def token_bytes_def tokens_from_def)
  have tail: "tail_ok ?rest" using samples by (rule tokens_from_tail_ok)
  have "\<exists>file1 file2 file3.
           extract_string ?s (format_var vars) = (file1, bytes ''P3'') \<and>
           extract_int file1 (width_var vars) = (file2, decimal (snd tw)) \<and>
           extract_int file2 (height_var vars) = (file3, decimal (snd th)) \<and>
           extract_int file3 0 = (advance file3 ?rest, decimal (snd tm)) \<and> good file3"
    by (rule load_header [where ?ws1.0 = "fst tw" and ?ws2.0 = "fst th" and ?ws3.0 = "fst tm"])
      (use ok tail content in \<open>simp_all add: token_ok_def\<close>)
  then obtain file1 file2 file3 where hd:
    "extract_string ?s (format_var vars) = (file1, bytes ''P3'')"
    "extract_int file1 (width_var vars) = (file2, ?W)"
    "extract_int file2 (height_var vars) = (file3, ?H)"
    "extract_int file3 0 = (advance file3 ?rest, decimal (snd tm))" "good file3"
    unfolding token_value_def by blast
  have nn: "0 \<le> ?W" "0 \<le> ?H" using ok by (simp_all add: token_value_nonneg)
  have "int (3 * (nat ?H * nat ?W)) = 3 * ?W * ?H" using nn by simp
  with len have len': "length samples = 3 * (nat ?H * nat ?W)" by linarith
  have start: "before_token samples trailer 0 (ignore (advance file3 ?rest))"
    if "0 < nat ?H * nat ?W"
  proof -
    from that len' have m: "0 < length samples" by simp
    with samples(1) have ws: "whitespace (fst (samples ! 0))"
      by (simp add: list_all_length token_ok_def)
    then obtain w ws' where w: "fst (samples ! 0) = w # ws'" "list_all isspace ws'"
      by (cases "fst (samples ! 0)") (auto simp add: whitespace_def)
    have unfold: "?rest = w # ws' @ snd (samples ! 0) @ tokens_from samples trailer (Suc 0)"
      using tokens_from_step [OF m, of trailer] w(1) by simp
    then have "ignore (advance file3 ?rest) =
        file3\<lparr>buf := ws' @ snd (samples ! 0) @ tokens_from samples trailer (Suc 0)\<rparr>"
      using hd(5) by (simp add: ignore_def sentry_def advance_def good_def)
    with hd(5) w(2) show ?thesis
      unfolding before_token_def by (auto simp add: good_def)
  qed
  from load_P3_pixels [OF samples len', of "ignore (advance file3 ?rest)"] start nn
  obtain s' where px: "load_pixels (bytes ''P3'') ?W ?H
           (ignore (advance file3 ?rest),
            replicate (nat ?H) (replicate (nat ?W) \<lparr>r_int = 0, g_int = 0, b_int = 0\<rparr>)) =
         Inr (s', grid_of (nat ?H) (nat ?W) (\<lambda>k. token_value (samples ! k)))"
    by auto
  show ?thesis
    using nn
    by (simp add: loadPPM_def open_in_def regular hd empty resize_empty px loaded_def)
qed

lemma loadPPM_unopened: "open_in fs filename = None \<Longrightarrow> loadPPM fs filename vars = Inr (False, vars)"
  by (simp add: loadPPM_def)

lemma loadPPM_magic:
  assumes "open_in fs filename = Some s" "extract_string s (format_var vars) = (s1, format)"
  shows "if format \<noteq> bytes ''P3'' \<and> format \<noteq> bytes ''P6''
         then loadPPM fs filename vars = Inr (False, vars\<lparr>format_var := format\<rparr>)
         else \<forall>vars'. loadPPM fs filename vars \<noteq> Inr (False, vars')"
  using assms by (auto simp add: loadPPM_def split: prod.splits sum.splits)

section \<open>Lemmas on the codec\<close>

lemma uint_digit: "k < 10 \<Longrightarrow> uint (digit_char k) = 48 + int k"
  unfolding digit_char_def
  by (simp add: unsigned_of_nat take_bit_nat_eq_self del: of_nat_add)

lemma isdigit_digit_char: "k < 10 \<Longrightarrow> isdigit (digit_char k)"
  by (simp add: isdigit_def uint_digit)

lemma digits_isdigit: "list_all isdigit (digits n)"
proof (induction n rule: digits.induct)
  case (1 n)
  show ?case
  proof (cases "n < 10")
    case True
    then show ?thesis by (subst digits.simps) (simp add: isdigit_digit_char)
  next
    case False
    have "n mod 10 < 10" by simp
    with 1 False show ?thesis
      by (subst digits.simps) (simp add: isdigit_digit_char)
  qed
qed

lemma digits_nonempty: "digits n \<noteq> []"
  by (subst digits.simps) simp

lemma decimal_snoc: "decimal (ds @ [c]) = 10 * decimal ds + (uint c - 48)"
  by (simp add: decimal_def)

lemma decimal_digits: "decimal (digits n) = int n"
proof (induction n rule: digits.induct)
  case (1 n)
  show ?case
  proof (cases "n < 10")
    case True
    then show ?thesis by (subst digits.simps) (simp add: decimal_def uint_digit)
  next
    case False
    have "n mod 10 < 10" by simp
    with 1 False show ?thesis
      by (subst digits.simps) (simp add: decimal_snoc uint_digit zdiv_int zmod_int)
  qed
qed

lemma number_show_int: "0 \<le> n \<Longrightarrow> n \<le> INT_MAX \<Longrightarrow> number (show_int n) \<and> decimal (show_int n) = n"
  by (simp add: number_def show_int_def digits_nonempty digits_isdigit decimal_digits)

lemma getline_line:
  assumes "good s" "buf s = line @ 10 # rest" "10 \<notin> set line"
  shows "getline s l0 = (s\<lparr>buf := rest\<rparr>, line)"
proof -
  from assms(3) have all: "\<And>x. x \<in> set line \<Longrightarrow> x \<noteq> 10" by auto
  have "takeWhile (\<lambda>c. c \<noteq> 10) (line @ 10 # rest) = line"
    "dropWhile (\<lambda>c. c \<noteq> 10) (line @ 10 # rest) = 10 # rest"
    using all by (simp_all add: takeWhile_append2 dropWhile_append2)
  with assms(1,2) show ?thesis
    by (simp add: getline_def sentry_def Let_def)
qed

lemma digits_no_newline: "list_all isdigit ds \<Longrightarrow> 10 \<notin> set ds"
  by (auto simp add: list_all_iff isdigit_def)

lemma parse_two_ints_numbers:
  assumes "number dw" "number dh"
  shows "parse_two_ints (dw @ 32 # dh) = Some (decimal dw, decimal dh)"
proof -
  let ?s = "stream_of (dw @ 32 # dh)"
  have g: "good ?s" by (simp add: stream_of_def good_def)
  have 1: "extract_int ?s 0 = (advance ?s (32 # dh), decimal dw)"
    by (rule extract_int_token [where lead = "[]"])
      (use g assms in \<open>simp_all add: stream_of_def tail_ok_def isdigit_def\<close>)
  have g1: "good (advance ?s (32 # dh))" "buf (advance ?s (32 # dh)) = 32 # dh"
    using advance_nonempty [OF _ g, of "32 # dh"] by simp_all
  have 2: "extract_int (advance ?s (32 # dh)) 0 = (advance (advance ?s (32 # dh)) [], decimal dh)"
    by (rule extract_int_token [where lead = "[32]"])
      (use g1 assms in \<open>simp_all add: tail_ok_def isspace_def\<close>)
  have 3: "\<not> failbit (advance (advance ?s (32 # dh)) [])"
    using g1(1) by (simp add: advance_def good_def)
  show ?thesis
    by (simp only: parse_two_ints_def Let_def 1 2 3 prod.case if_False)
qed

lemma read_dimensions_written:
  assumes "good s" "buf s = 10 # dw @ 32 # dh @ 10 # rest" "number dw" "number dh"
  shows "read_dimensions s = Inr (s\<lparr>buf := rest\<rparr>, decimal dw, decimal dh)"
proof -
  let ?s1 = "s\<lparr>buf := dw @ 32 # dh @ 10 # rest\<rparr>"
  have l1: "getline s [] = (?s1, [])"
    using getline_line [OF assms(1), of "[]" "dw @ 32 # dh @ 10 # rest" "[]"] assms(2) by simp
  have g1: "good ?s1" "\<not> failbit ?s1" using assms(1) by (simp_all add: good_def)
  from assms(3,4) have nl: "10 \<notin> set (dw @ 32 # dh)"
    by (simp add: number_def digits_no_newline)
  have l2: "getline ?s1 [] = (s\<lparr>buf := rest\<rparr>, dw @ 32 # dh)"
    using getline_line [OF g1(1), of "dw @ 32 # dh" rest "[]"] nl by simp
  from assms(3) obtain d ds where dw: "dw = d # ds" "isdigit d"
    by (cases dw) (auto simp add: number_def)
  then have line: "(dw @ 32 # dh = [] \<or> hd (dw @ 32 # dh) = 35) = False"
    by (auto simp add: isdigit_def)
  have g2: "\<not> failbit (s\<lparr>buf := rest\<rparr>)" using assms(1) by (simp add: good_def)
  have step2: "read_dimensions ?s1 = Inr (s\<lparr>buf := rest\<rparr>, decimal dw, decimal dh)"
    by (subst read_dimensions.simps)
      (simp only: l2 prod.case g2 line if_False
        parse_two_ints_numbers [OF assms(3,4)] option.case)
  show ?thesis
    by (subst read_dimensions.simps) (simp only: l1 prod.case g1 if_False if_True simp_thms step2)
qed

lemma read_max_val_written:
  assumes "good s" "buf s = bytes ''255'' @ 10 # rest"
  shows "read_max_val s = Inr (s\<lparr>buf := rest\<rparr>, 255)"
proof -
  have nl: "10 \<notin> set (bytes ''255'')" by (simp add: bytes_def)
  have l: "getline s [] = (s\<lparr>buf := rest\<rparr>, bytes ''255'')"
    using getline_line [OF assms(1), of "bytes ''255''" rest "[]"] assms(2) nl by simp
  have g: "\<not> failbit (s\<lparr>buf := rest\<rparr>)" using assms(1) by (simp add: good_def)
  have line: "(bytes ''255'' = [] \<or> hd (bytes ''255'') = 35) = False" by (simp add: bytes_def)
  have p: "parse_one_int (bytes ''255'') = Some 255" by code_simp
  show ?thesis
    by (subst read_max_val.simps) (simp only: l prod.case g line if_False p option.case)
qed

lemma header_append:
  "header w h @ data =
     bytes ''P6'' @ 10 # show_int w @ 32 # show_int h @ 10 # bytes ''255'' @ 10 # data"
  by (simp add: header_def)

lemma read_header_written:
  assumes "0 \<le> w" "w \<le> INT_MAX" "0 \<le> h" "h \<le> INT_MAX"
  shows "read_header (stream_of (header w h @ data)) = Inr (stream_of data, w, h)"
proof -
  let ?dw = "show_int w" and ?dh = "show_int h"
  let ?after = "?dw @ 32 # ?dh @ 10 # bytes ''255'' @ 10 # data"
  let ?s = "stream_of (header w h @ data)"
  from assms have num: "number ?dw" "decimal ?dw = w" "number ?dh" "decimal ?dh = h"
    by (simp_all add: number_show_int)
  have gs: "good ?s" by (simp add: stream_of_def good_def)
  have magic: "extract_string ?s [] = (?s\<lparr>buf := 10 # ?after\<rparr>, bytes ''P6'')"
    by (rule extract_string_token [where rest' = "[10]"])
      (use gs in \<open>simp_all add: stream_of_def header_append bytes_def whitespace_def isspace_def\<close>)
  let ?s1 = "?s\<lparr>buf := 10 # ?after\<rparr>"
  have g1: "good ?s1" by (simp add: stream_of_def good_def)
  have dims: "read_dimensions ?s1 = Inr (?s1\<lparr>buf := bytes ''255'' @ 10 # data\<rparr>, w, h)"
    using read_dimensions_written [OF g1 _ num(1,3), of "bytes ''255'' @ 10 # data"] num(2,4)
    by simp
  let ?s2 = "?s1\<lparr>buf := bytes ''255'' @ 10 # data\<rparr>"
  have g2: "good ?s2" by (simp add: stream_of_def good_def)
  have maxv: "read_max_val ?s2 = Inr (stream_of data, 255)"
    using read_max_val_written [OF g2, of data] by (simp add: stream_of_def)
  show ?thesis
    by (simp only: read_header_def magic dims maxv prod.case sum.case simp_thms if_False)
qed

lemma skip_whitespace_none:
  assumes "data = c # cs" "\<not> isspace c"
  shows "skip_whitespace (stream_of data) = stream_of data"
  using assms
  by (subst skip_whitespace.simps) (simp add: peek_def sentry_def stream_of_def good_def)

lemma length_bytes_of: "length (bytes_of row) = 3 * length row"
  by (induction row) simp_all

lemma pixels_of_bytes_of: "pixels_of (bytes_of row) = row"
  by (induction row) simp_all

lemma print_block_ok:
  assumes "has_shape img h w"
  shows "print_block img (int h) (int w) = Inr ()"
proof -
  have inner: "\<exists>u'. for_each [0..min 5 (int w) - 1]
        (\<lambda>j u. case px_at img i j of Inl e \<Rightarrow> Inl e | Inr p \<Rightarrow> Inr ()) u = Inr u' \<and> True"
    if "0 \<le> i" "i < int h" for i u
  proof (rule for_each_rule [where I = "\<lambda>k u. True"])
    fix k t assume "k < length [0..min 5 (int w) - 1]"
    then have "[0..min 5 (int w) - 1] ! k = int k" "int k < int w"
      by (simp_all add: nth_upto_int)
    then show "\<exists>t'. (case px_at img i ([0..min 5 (int w) - 1] ! k) of
                      Inl e \<Rightarrow> Inl e | Inr p \<Rightarrow> Inr ()) = Inr t' \<and> True"
      using px_at_shape [OF assms that, of "int k"] by simp
  qed simp
  have "\<exists>u'. print_block img (int h) (int w) = Inr u' \<and> True"
    unfolding print_block_def
  proof (rule for_each_rule [where I = "\<lambda>k u. True"])
    fix k t assume "k < length [0..min 5 (int h) - 1]"
    then have "[0..min 5 (int h) - 1] ! k = int k" "int k < int h"
      by (simp_all add: nth_upto_int)
    with inner [of "int k" t]
    show "\<exists>t'. for_each [0..min 5 (int w) - 1]
        (\<lambda>j u. case px_at img ([0..min 5 (int h) - 1] ! k) j of Inl e \<Rightarrow> Inl e | Inr p \<Rightarrow> Inr ())
        t = Inr t' \<and> True"
      by simp
  qed simp
  then show ?thesis by simp
qed

lemma read_rows_written:
  assumes sh: "has_shape img h w" and w: "int w * 3 \<le> INT_MAX"
  shows "read_rows (stream_of (concat (map bytes_of img))) (int w) (int h) =
           Inr (stream_of [], img)"
proof -
  let ?zero = "replicate w \<lparr>r = 0, g = 0, b = 0\<rparr>"
  let ?body = "\<lambda>i (f, im).
         if INT_MAX < int w * 3 then Inl (UB SignedOverflow)
         else (case read f (nat (int w * 3)) of
                 (file1, got) \<Rightarrow>
                   if int (length got) \<noteq> int w * 3 then Inl (Raise (PixelDataError i))
                   else Inr (file1, im[nat i := pixels_of got]))"
  define I where "I k st \<longleftrightarrow> st = (stream_of (concat (map bytes_of (drop k img))),
                                    take k img @ replicate (h - k) ?zero)"
    for k and st :: "istream \<times> image"
  have len: "length img = h" using sh by (rule has_shape_length)
  have "\<exists>st. for_each [0..int h - 1] ?body
          (stream_of (concat (map bytes_of img)), replicate (nat (int h)) (replicate (nat (int w)) \<lparr>r = 0, g = 0, b = 0\<rparr>)) =
          Inr st \<and> I (length [0..int h - 1]) st"
  proof (rule for_each_rule)
    show "I 0 (stream_of (concat (map bytes_of img)),
               replicate (nat (int h)) (replicate (nat (int w)) \<lparr>r = 0, g = 0, b = 0\<rparr>))"
      by (simp add: I_def)
  next
    fix k st
    assume k: "k < length [0..int h - 1]" and inv: "I k st"
    then have i: "[0..int h - 1] ! k = int k" "k < h"
      by (simp_all add: nth_upto_int)
    define rest where "rest = concat (map bytes_of (drop (Suc k) img))"
    define row where "row = img ! k"
    define above where "above = take k img"
    have dr: "drop k img = row # drop (Suc k) img"
      using i(2) len by (simp add: row_def Cons_nth_drop_Suc)
    have rowlen: "length (bytes_of row) = 3 * w"
      using has_shape_nth [OF sh i(2)] by (simp add: row_def length_bytes_of)
    have st: "st = (stream_of (bytes_of row @ rest), above @ replicate (h - k) ?zero)"
      using inv by (simp add: I_def dr rest_def above_def)
    have rd: "read (stream_of (bytes_of row @ rest)) (nat (int w * 3)) = (stream_of rest, bytes_of row)"
      using rowlen by (simp add: read_def sentry_def stream_of_def good_def Let_def)
    have dlen: "length above = k" using i(2) len by (simp add: above_def)
    have upd: "(above @ replicate (h - k) ?zero)[k := row] =
        take (Suc k) img @ replicate (h - Suc k) ?zero"
    proof -
      have "replicate (h - k) ?zero = ?zero # replicate (h - Suc k) ?zero"
        using i(2) by (simp add: Suc_diff_Suc flip: replicate_Suc)
      then have "(above @ replicate (h - k) ?zero)[k := row] = above @ row # replicate (h - Suc k) ?zero"
        using dlen by (simp add: list_update_append)
      moreover have "take (Suc k) img = above @ [row]"
        using i(2) len by (simp add: take_Suc_conv_app_nth above_def row_def)
      ultimately show ?thesis by simp
    qed
    have "?body (int k) st = Inr (stream_of rest, take (Suc k) img @ replicate (h - Suc k) ?zero)"
      using w rowlen by (simp add: st rd pixels_of_bytes_of upd)
    moreover have "I (Suc k) (stream_of rest, take (Suc k) img @ replicate (h - Suc k) ?zero)"
      by (simp add: I_def rest_def)
    ultimately show "\<exists>st'. ?body ([0..int h - 1] ! k) st = Inr st' \<and> I (Suc k) st'"
      unfolding i(1) by blast
  qed
  then show ?thesis
    using len by (simp add: read_rows_def I_def)
qed

lemma write_rows_written:
  assumes sh: "has_shape img h w" and w: "int w * 3 \<le> INT_MAX"
  shows "write_rows (fs(filename := Regular hdr)) filename img (int w) (int h) =
           Inr (fs(filename := Regular (hdr @ concat (map bytes_of img))))"
proof -
  let ?body = "\<lambda>i fs'.
         case row_at img i of
           Inl e \<Rightarrow> Inl (UB e)
         | Inr row \<Rightarrow>
             if INT_MAX < int w * 3 then Inl (UB SignedOverflow)
             else if int (length row) < int w then Inl (UB (ColOOB i (int (length row))))
             else Inr (write_bytes fs' filename (bytes_of (take (nat (int w)) row)))"
  define I where "I k fs' \<longleftrightarrow>
      fs' = fs(filename := Regular (hdr @ concat (map bytes_of (take k img))))"
    for k and fs' :: filesystem
  have len: "length img = h" using sh by (rule has_shape_length)
  have "\<exists>fs'. for_each [0..int h - 1] ?body (fs(filename := Regular hdr)) = Inr fs' \<and>
          I (length [0..int h - 1]) fs'"
  proof (rule for_each_rule)
    show "I 0 (fs(filename := Regular hdr))" by (simp add: I_def)
  next
    fix k fs'
    assume k: "k < length [0..int h - 1]" and inv: "I k fs'"
    then have i: "[0..int h - 1] ! k = int k" "k < h"
      by (simp_all add: nth_upto_int)
    have row: "row_at img (int k) = Inr (img ! k)" "length (img ! k) = w"
      using i(2) len has_shape_nth [OF sh i(2)] by (simp_all add: row_at_def)
    have "take (Suc k) img = take k img @ [img ! k]"
      using i(2) len by (simp add: take_Suc_conv_app_nth)
    then have "?body (int k) fs' =
        Inr (fs(filename := Regular (hdr @ concat (map bytes_of (take (Suc k) img)))))"
      using inv w row by (simp add: I_def write_bytes_def)
    then show "\<exists>t'. ?body ([0..int h - 1] ! k) fs' = Inr t' \<and> I (Suc k) t'"
      unfolding i(1) by (simp add: I_def)
  qed
  then show ?thesis
    using len by (simp add: write_rows_def I_def)
qed

lemma length_concat_rows:
  "has_shape img h w \<Longrightarrow> length (concat (map bytes_of img)) = 3 * w * h"
proof -
  assume sh: "has_shape img h w"
  then have "\<forall>row\<in>set img. length (bytes_of row) = 3 * w"
    by (simp add: has_shape_def list_all_iff length_bytes_of)
  then have "map (length \<circ> bytes_of) img = replicate (length img) (3 * w)"
    by (induction img) simp_all
  then show ?thesis
    using has_shape_length [OF sh] by (simp add: length_concat sum_list_replicate)
qed

lemma length_header: "10 \<le> length (header w h)"
proof -
  have "1 \<le> length (show_int n)" for n
    using digits_nonempty [of "nat n"] digits_nonempty [of "nat (- n)"]
    by (cases "digits (nat n)"; cases "digits (nat (- n))") (simp_all add: show_int_def)
  from this [of w] this [of h] show ?thesis
    by (simp add: header_def bytes_def)
qed

section \<open>Properties of the transforms\<close>

subsection \<open>Blur\<close>

text \<open>
  C4. On a rectangular buffer with at least three rows and three columns \<open>blur\<close> returns a
  buffer of the same shape. Each channel of an interior pixel \<open>(i, j)\<close> is the floor of
  the sum of the nine values of that channel around \<open>(i, j)\<close> divided by 9, all nine read
  from the argument \<open>img\<close>, which is the buffer as it was before any pixel was written.
  Every pixel of row 0, the last row, column 0 and the last column is unchanged.
\<close>

theorem blur_box_average:
  assumes "rectangular img" "3 \<le> img_height img" "3 \<le> img_width img"
  shows "\<exists>out. blur img = Inr out \<and> same_shape out img \<and>
           (\<forall>i<img_height img. \<forall>j<img_width img.
              if 0 < i \<and> i < img_height img - 1 \<and> 0 < j \<and> j < img_width img - 1
              then uint (r (out ! i ! j)) = box_average r img (int i) (int j) \<and>
                   uint (g (out ! i ! j)) = box_average g img (int i) (int j) \<and>
                   uint (b (out ! i ! j)) = box_average b img (int i) (int j)
              else out ! i ! j = img ! i ! j)"
proof -
  let ?h = "img_height img" and ?w = "img_width img"
  have ne: "img \<noteq> []" using assms(2) by (auto simp add: img_height_def)
  then have sh: "has_shape img ?h ?w" using assms(1) by (rule rectangular_shape)
  have h: "0 < ?h" using assms(2) by simp
  from blur_shape [OF sh h] obtain out where out: "blur img = Inr out" "has_shape out ?h ?w"
    "\<forall>i<?h. \<forall>j<?w. out ! i ! j =
       (if 1 \<le> int i \<and> int i \<le> int ?h - 2 \<and> 1 \<le> int j \<and> int j \<le> int ?w - 2
        then \<lparr>r = word_of_int (channel_sum r img (int i) (int j) div 9),
              g = word_of_int (channel_sum g img (int i) (int j) div 9),
              b = word_of_int (channel_sum b img (int i) (int j) div 9)\<rparr>
        else img ! i ! j)"
    by blast
  have "same_shape out img"
    using shape_rectangular [OF out(2)] h by (simp add: same_shape_def)
  moreover have "\<forall>i<?h. \<forall>j<?w.
              if 0 < i \<and> i < ?h - 1 \<and> 0 < j \<and> j < ?w - 1
              then uint (r (out ! i ! j)) = box_average r img (int i) (int j) \<and>
                   uint (g (out ! i ! j)) = box_average g img (int i) (int j) \<and>
                   uint (b (out ! i ! j)) = box_average b img (int i) (int j)
              else out ! i ! j = img ! i ! j"
  proof (intro allI impI)
    fix i j assume bd: "i < ?h" "j < ?w"
    have eq: "(1 \<le> int i \<and> int i \<le> int ?h - 2 \<and> 1 \<le> int j \<and> int j \<le> int ?w - 2) =
              (0 < i \<and> i < ?h - 1 \<and> 0 < j \<and> j < ?w - 1)"
      by auto
    from out(3) bd have "out ! i ! j =
       (if 0 < i \<and> i < ?h - 1 \<and> 0 < j \<and> j < ?w - 1
        then \<lparr>r = word_of_int (channel_sum r img (int i) (int j) div 9),
              g = word_of_int (channel_sum g img (int i) (int j) div 9),
              b = word_of_int (channel_sum b img (int i) (int j) div 9)\<rparr>
        else img ! i ! j)"
      unfolding eq [symmetric] by simp
    then show "if 0 < i \<and> i < ?h - 1 \<and> 0 < j \<and> j < ?w - 1
              then uint (r (out ! i ! j)) = box_average r img (int i) (int j) \<and>
                   uint (g (out ! i ! j)) = box_average g img (int i) (int j) \<and>
                   uint (b (out ! i ! j)) = box_average b img (int i) (int j)
              else out ! i ! j = img ! i ! j"
      by (simp add: uint_box_average)
  qed
  ultimately show ?thesis using out(1) by blast
qed

text \<open>The theorem at a 3 by 3 buffer: the centre is averaged, the border is kept.\<close>

lemma sample3_shape: "rectangular sample3" "3 \<le> img_height sample3" "3 \<le> img_width sample3"
  by (simp_all add: sample3_def rectangular_def img_height_def img_width_def)

theorem blur_box_average_witness:
  "rectangular sample3 \<and> 3 \<le> img_height sample3 \<and> 3 \<le> img_width sample3 \<and>
   (\<exists>out. blur sample3 = Inr out \<and> same_shape out sample3 \<and>
      uint (r (out ! 1 ! 1)) = 45 \<and> uint (g (out ! 1 ! 1)) = 28 \<and> uint (b (out ! 1 ! 1)) = 5 \<and>
      out ! 0 ! 0 = sample3 ! 0 ! 0 \<and> out ! 2 ! 1 = sample3 ! 2 ! 1)"
proof -
  from blur_box_average [OF sample3_shape] obtain out where out: "blur sample3 = Inr out"
    "same_shape out sample3"
    "\<forall>i<img_height sample3. \<forall>j<img_width sample3.
              if 0 < i \<and> i < img_height sample3 - 1 \<and> 0 < j \<and> j < img_width sample3 - 1
              then uint (r (out ! i ! j)) = box_average r sample3 (int i) (int j) \<and>
                   uint (g (out ! i ! j)) = box_average g sample3 (int i) (int j) \<and>
                   uint (b (out ! i ! j)) = box_average b sample3 (int i) (int j)
              else out ! i ! j = sample3 ! i ! j"
    by blast
  have dims: "img_height sample3 = 3" "img_width sample3 = 3"
    by (simp_all add: sample3_def img_height_def img_width_def)
  have avg: "box_average r sample3 1 1 = 45" "box_average g sample3 1 1 = 28"
    "box_average b sample3 1 1 = 5"
    by (simp_all add: box_average_def channel_sum_def neighbourhood_def sample3_def)
  from out(3) [rule_format, of 1 1] have "uint (r (out ! 1 ! 1)) = 45"
    "uint (g (out ! 1 ! 1)) = 28" "uint (b (out ! 1 ! 1)) = 5"
    by (simp_all add: dims avg)
  moreover from out(3) [rule_format, of 0 0] have "out ! 0 ! 0 = sample3 ! 0 ! 0"
    by (simp add: dims)
  moreover from out(3) [rule_format, of 2 1] have "out ! 2 ! 1 = sample3 ! 2 ! 1"
    by (simp add: dims)
  ultimately show ?thesis using out(1,2) sample3_shape by blast
qed

subsection \<open>Downsampling\<close>

text \<open>
  C5. On a rectangular buffer with at least one row and one column \<open>compress\<close> returns a
  buffer of \<open>h div 2\<close> rows, each of \<open>w div 2\<close> pixels, whose pixel \<open>(i, j)\<close> is pixel
  \<open>(2 i + 1, 2 j + 1)\<close> of the input.
\<close>

theorem compress_odd_indices:
  assumes "rectangular img" "1 \<le> img_height img" "1 \<le> img_width img"
  shows "\<exists>out. compress img = Inr out \<and>
           img_height out = img_height img div 2 \<and>
           list_all (\<lambda>row. length row = img_width img div 2) out \<and>
           (\<forall>i<img_height img div 2. \<forall>j<img_width img div 2.
              out ! i ! j = img ! (2 * i + 1) ! (2 * j + 1))"
proof -
  let ?h = "img_height img" and ?w = "img_width img"
  have "img \<noteq> []" using assms(2) by (auto simp add: img_height_def)
  then have sh: "has_shape img ?h ?w" using assms(1) by (rule rectangular_shape)
  have h: "0 < ?h" using assms(2) by simp
  from compress_shape [OF sh h] show ?thesis
    by (auto simp add: has_shape_def img_height_def)
qed

text \<open>
  The theorem at a 4 by 4 buffer: the result is 2 by 2, its pixel \<open>(0, 0)\<close> is input pixel
  \<open>(1, 1)\<close> and its pixel \<open>(1, 1)\<close> is input pixel \<open>(3, 3)\<close>.
\<close>

lemma sample4_shape: "rectangular sample4" "1 \<le> img_height sample4" "1 \<le> img_width sample4"
  by (simp_all add: sample4_def rectangular_def img_height_def img_width_def)

theorem compress_odd_indices_witness:
  "rectangular sample4 \<and> img_height sample4 = 4 \<and> img_width sample4 = 4 \<and>
   (\<exists>out. compress sample4 = Inr out \<and> img_height out = 2 \<and>
      list_all (\<lambda>row. length row = 2) out \<and>
      out ! 0 ! 0 = sample4 ! 1 ! 1 \<and> out ! 1 ! 1 = sample4 ! 3 ! 3)"
proof -
  have dims: "img_height sample4 = 4" "img_width sample4 = 4"
    by (simp_all add: sample4_def img_height_def img_width_def)
  from compress_odd_indices [OF sample4_shape] obtain out where out:
    "compress sample4 = Inr out" "img_height out = 2" "list_all (\<lambda>row. length row = 2) out"
    "\<forall>i<2. \<forall>j<2. out ! i ! j = sample4 ! (2 * i + 1) ! (2 * j + 1)"
    unfolding dims by auto
  from out(4) [rule_format, of 0 0] out(4) [rule_format, of 1 1]
  have "out ! 0 ! 0 = sample4 ! 1 ! 1" "out ! 1 ! 1 = sample4 ! 3 ! 3"
    by simp_all
  with out(1,2,3) sample4_shape(1) dims show ?thesis by blast
qed

subsection \<open>Mirror\<close>

text \<open>
  C6. The claim is that \<open>mirror\<close> completes on every width from 1 and stays inside the
  buffer. The code does not: the loops that print the last five pixels of row 0 start at
  \<^verbatim>\<open>width - 5\<close>, so on a buffer with at least one row whose row 0 has fewer than five
  pixels the first read is \<^verbatim>\<open>image[0][width - 5]\<close>, at a negative column.
\<close>

theorem mirror_narrow_reads_outside:
  assumes "img \<noteq> []" "length (img ! 0) < 5"
  shows "mirror img = Inl (ColOOB 0 (int (length (img ! 0)) - 5))"
  using assms by (rule mirror_narrow)

theorem mirror_narrow_reads_outside_witness:
  "mirror [[\<lparr>r = 1, g = 2, b = 3\<rparr>]] = Inl (ColOOB 0 (- 4))"
  using mirror_narrow_reads_outside [of "[[\<lparr>r = 1, g = 2, b = 3\<rparr>]]"] by simp

subsection \<open>Shape\<close>

text \<open>
  C9. The claim is that each of the six transforms takes a rectangular buffer to a
  rectangular buffer, of the same width and height for all but \<open>compress\<close>. For
  \<open>mirror\<close> the code does not: on the rectangular buffer of three rows and three columns
  the loop that prints the last five pixels of row 0 starts at column \<open>- 2\<close>, outside the
  buffer, and no buffer results. It is the read of C6.
\<close>

theorem mirror_leaves_no_buffer:
  "rectangular sample3 \<and> img_height sample3 = 3 \<and> img_width sample3 = 3 \<and>
   mirror sample3 = Inl (ColOOB 0 (- 2))"
proof -
  have "sample3 \<noteq> []" "length (sample3 ! 0) = 3"
    by (simp_all add: sample3_def)
  then have "mirror sample3 = Inl (ColOOB 0 (- 2))"
    using mirror_narrow [of sample3] by simp
  then show ?thesis
    by (simp add: sample3_def rectangular_def img_height_def img_width_def)
qed

text \<open>
  What holds of the shapes. On a rectangular buffer with at least one row, \<open>grayscale\<close>,
  \<open>invert\<close> and \<open>contrast\<close> return a buffer of the same shape, \<open>blur\<close> returns a buffer
  of the same shape, and \<open>compress\<close> returns a rectangular buffer of half the height and,
  when it has a row, half the width. \<open>mirror\<close> returns the buffer with every row
  reversed, of the same shape, when there are at least five columns, and reads outside
  the buffer when there are fewer.
\<close>

lemma shapes_of_transforms:
  assumes "rectangular img" "1 \<le> img_height img"
  shows "same_shape (grayscale img) img \<and>
         same_shape (invert img) img \<and>
         same_shape (contrast scaled img) img \<and>
         (\<exists>out. blur img = Inr out \<and> same_shape out img) \<and>
         (\<exists>out. compress img = Inr out \<and> rectangular out \<and>
                img_height out = img_height img div 2 \<and>
                (2 \<le> img_height img \<longrightarrow> img_width out = img_width img div 2)) \<and>
         (if 5 \<le> img_width img
          then mirror img = Inr (map rev img) \<and> same_shape (map rev img) img
          else mirror img = Inl (ColOOB 0 (int (img_width img) - 5)))"
proof -
  let ?h = "img_height img" and ?w = "img_width img"
  have maps: "same_shape (map f img) img" if "\<And>row. length (f row) = length row"
    for f :: "RGB list \<Rightarrow> RGB list"
    using map_rows_shape [of f img, OF that] assms(1) by (simp add: same_shape_def)
  have 1: "same_shape (grayscale img) img" unfolding grayscale_def by (rule maps) simp
  have 2: "same_shape (invert img) img" unfolding invert_def by (rule maps) simp
  have 3: "same_shape (contrast scaled img) img" unfolding contrast_def by (rule maps) simp
  have ne: "img \<noteq> []" using assms(2) by (auto simp add: img_height_def)
  then have sh: "has_shape img ?h ?w" using assms(1) by (rule rectangular_shape)
  have h: "0 < ?h" using assms(2) by simp
  from blur_shape [OF sh h] obtain out1 where out1: "blur img = Inr out1"
    "has_shape out1 ?h ?w" by blast
  have 4: "\<exists>out. blur img = Inr out \<and> same_shape out img"
    using out1(1) shape_rectangular [OF out1(2)] h by (simp add: same_shape_def)
  from compress_shape [OF sh h] obtain out2 where out2: "compress img = Inr out2"
    "has_shape out2 (?h div 2) (?w div 2)" by blast
  have "2 \<le> ?h \<Longrightarrow> 0 < ?h div 2" by simp
  then have 5: "\<exists>out. compress img = Inr out \<and> rectangular out \<and>
                img_height out = ?h div 2 \<and> (2 \<le> ?h \<longrightarrow> img_width out = ?w div 2)"
    using out2(1) shape_rectangular [OF out2(2)] by auto
  have w0: "length (img ! 0) = ?w" using ne by (rule img_width_nth0)
  have 6: "if 5 \<le> ?w
          then mirror img = Inr (map rev img) \<and> same_shape (map rev img) img
          else mirror img = Inl (ColOOB 0 (int ?w - 5))"
  proof (cases "5 \<le> ?w")
    case True
    with ne w0 have "mirror img = Inr (map rev img)" by (intro mirror_wide) simp_all
    with True maps [of rev] show ?thesis by simp
  next
    case False
    with ne w0 have "mirror img = Inl (ColOOB 0 (int (length (img ! 0)) - 5))"
      by (intro mirror_narrow) simp_all
    with False w0 show ?thesis by simp
  qed
  from 1 2 3 4 5 6 show ?thesis by blast
qed

text \<open>
  At a buffer of four rows and six columns (with the identity for the floating-point map
  of \<open>contrast\<close>) all six transforms return: five buffers of four rows and six columns,
  and from \<open>compress\<close> one of two rows and three columns.
\<close>

lemma shapes_on_4_by_6:
  "rectangular sample4x6 \<and> img_height sample4x6 = 4 \<and> img_width sample4x6 = 6 \<and>
   same_shape (grayscale sample4x6) sample4x6 \<and>
   same_shape (invert sample4x6) sample4x6 \<and>
   same_shape (contrast (\<lambda>x. x) sample4x6) sample4x6 \<and>
   (\<exists>out. blur sample4x6 = Inr out \<and> same_shape out sample4x6) \<and>
   (\<exists>out. compress sample4x6 = Inr out \<and> rectangular out \<and>
          img_height out = 2 \<and> img_width out = 3) \<and>
   mirror sample4x6 = Inr (map rev sample4x6) \<and> same_shape (map rev sample4x6) sample4x6"
proof -
  have rect: "rectangular sample4x6"
    by (simp add: sample4x6_def rectangular_def img_width_def)
  have dims: "img_height sample4x6 = 4" "img_width sample4x6 = 6"
    by (simp_all add: sample4x6_def img_height_def img_width_def)
  have h: "1 \<le> img_height sample4x6" by (simp add: dims)
  from shapes_of_transforms [OF rect h, of "\<lambda>x. x"] rect
  show ?thesis by (simp add: dims)
qed

subsection \<open>The read of row 0\<close>

text \<open>
  C10. \<open>blur\<close>, \<open>mirror\<close> and \<open>compress\<close> each begin with \<^verbatim>\<open>image[0].size()\<close>. On the
  buffer with no rows, which is what \<open>compress\<close> returns for a buffer of one row, that
  read is outside the buffer. On a buffer with at least one row the read succeeds, and
  none of the three ever reports a read of row 0 as outside the buffer.
\<close>

theorem row0_needs_a_row:
  "blur [] = Inl (RowOOB 0) \<and> mirror [] = Inl (RowOOB 0) \<and> compress [] = Inl (RowOOB 0) \<and>
   compress [row] = Inr [] \<and>
   (1 \<le> img_height img \<longrightarrow>
      row_at img 0 = Inr (img ! 0) \<and>
      blur img \<noteq> Inl (RowOOB 0) \<and> mirror img \<noteq> Inl (RowOOB 0) \<and>
      compress img \<noteq> Inl (RowOOB 0))"
proof -
  have empty: "blur [] = Inl (RowOOB 0)" "mirror [] = Inl (RowOOB 0)"
    "compress [] = Inl (RowOOB 0)"
    by (simp_all add: blur_def mirror_def compress_def row_at_def)
  have one: "compress [row] = Inr []"
    by (simp add: compress_def row_at_def)
  have rows: "row_at img 0 = Inr (img ! 0) \<and>
      blur img \<noteq> Inl (RowOOB 0) \<and> mirror img \<noteq> Inl (RowOOB 0) \<and>
      compress img \<noteq> Inl (RowOOB 0)" if "1 \<le> img_height img"
  proof -
    from that have ne: "img \<noteq> []" by (auto simp add: img_height_def)
    then show ?thesis
      by (simp add: row_at_0 blur_no_row0_fault mirror_no_row0_fault compress_no_row0_fault)
  qed
  from empty one rows show ?thesis by blast
qed

text \<open>The theorem at a buffer of one row and six columns.\<close>

theorem row0_needs_a_row_witness:
  "1 \<le> img_height sample6 \<and>
   row_at sample6 0 = Inr (sample6 ! 0) \<and>
   blur sample6 \<noteq> Inl (RowOOB 0) \<and> mirror sample6 \<noteq> Inl (RowOOB 0) \<and>
   compress sample6 \<noteq> Inl (RowOOB 0) \<and>
   compress sample6 = Inr [] \<and> blur [] = Inl (RowOOB 0)"
proof -
  have h: "1 \<le> img_height sample6" by (simp add: sample6_def img_height_def)
  have "sample6 = [hd sample6]" by (simp add: sample6_def)
  with row0_needs_a_row [of "hd sample6" sample6] h show ?thesis by metis
qed

section \<open>Properties of the codec\<close>

subsection \<open>Round trip\<close>

text \<open>
  C1. The claim is that reading back what \<open>writePPM\<close> wrote gives the same buffer. The
  code does not: for the 1 by 1 buffer whose red channel is 32, a space, \<open>writePPM\<close>
  succeeds and writes the header followed by the bytes 32, 65, 66, and \<open>readPPM\<close> on that
  file takes the 32 for white space after the header, finds two bytes where it wants
  three, and throws at row 0.
\<close>

theorem roundtrip_fails_on_leading_space:
  "snd (writePPM empty_fs ''out.ppm'' space_pixel) = Inr () \<and>
   fst (writePPM empty_fs ''out.ppm'' space_pixel) ''out.ppm'' =
     Regular (bytes ''P6'' @ [10] @ bytes ''1 1'' @ [10] @ bytes ''255'' @ [10, 32, 65, 66]) \<and>
   readPPM (fst (writePPM empty_fs ''out.ppm'' space_pixel)) ''out.ppm'' =
     Inl (Raise (PixelDataError 0))"
  by code_simp

text \<open>
  The leading byte is the only obstacle. For a rectangular buffer with at least one row
  and one column whose sizes fit an \<^verbatim>\<open>int\<close>, written to a path that can be opened,
  \<open>writePPM\<close> succeeds and leaves the header and the pixel bytes in the file, and
  \<open>readPPM\<close> returns the same buffer, provided the red channel of the first pixel is not
  a white-space byte.
\<close>

lemma roundtrip_unless_leading_space:
  assumes rect: "rectangular img" and dims: "1 \<le> img_height img" "1 \<le> img_width img"
    and size: "int (img_width img) * int (img_height img) * 3 + 10 \<le> INT_MAX"
    and openable: "fs filename \<noteq> Unopenable"
    and first: "\<not> isspace (r (img ! 0 ! 0))"
  shows "writePPM fs filename img =
           (fs(filename := Regular (header (int (img_width img)) (int (img_height img)) @
                                    concat (map bytes_of img))), Inr ()) \<and>
         readPPM (fst (writePPM fs filename img)) filename = Inr img"
proof -
  define h where "h = img_height img"
  define w where "w = img_width img"
  define data where "data = concat (map bytes_of img)"
  define hdr where "hdr = header (int w) (int h)"
  have ne: "img \<noteq> []" using dims(1) by (auto simp add: img_height_def)
  then have sh: "has_shape img h w"
    unfolding h_def w_def using rect by (rule rectangular_shape)
  have len: "length img = h" "length (img ! 0) = w"
    using ne by (simp_all add: h_def w_def img_height_def img_width_nth0)
  have pos: "1 \<le> h" "1 \<le> w" using dims by (simp_all add: h_def w_def)
  have "int w * 1 \<le> int w * int h" using pos by (intro mult_left_mono) simp_all
  moreover have "int h * 1 \<le> int w * int h" using pos by (simp add: mult.commute [of "int w"])
  moreover have total: "int w * int h * 3 + 10 \<le> INT_MAX" using size by (simp add: h_def w_def)
  ultimately have bounds: "int w * 3 \<le> INT_MAX" "int w \<le> INT_MAX" "int h \<le> INT_MAX"
    by simp_all
  have op: "open_out fs filename = Some (fs(filename := Regular []))"
    using openable by (simp add: open_out_def split: node.splits)
  have wb: "write_bytes (fs(filename := Regular [])) filename hdr = fs(filename := Regular hdr)"
    by (simp add: write_bytes_def)
  have pb: "print_block img (int h) (int w) = Inr ()" using sh by (rule print_block_ok)
  have wr: "write_rows (fs(filename := Regular hdr)) filename img (int w) (int h) =
      Inr (fs(filename := Regular (hdr @ data)))"
    unfolding data_def using sh bounds(1) by (rule write_rows_written)
  have reopen: "open_in (fs(filename := Regular (hdr @ data))) filename = Some (stream_of (hdr @ data))"
    by (simp add: open_in_def)
  have sz: "\<not> int (length (buf (stream_of (hdr @ data)))) < int w * int h * 3 + 10"
    using length_header [of "int w" "int h"] length_concat_rows [OF sh]
    by (simp add: stream_of_def hdr_def data_def)
  have written: "writePPM fs filename img = (fs(filename := Regular (hdr @ data)), Inr ())"
    using pos total sz
    by (simp add: writePPM_def op len Let_def wb [unfolded hdr_def] pb
        wr [unfolded hdr_def] reopen [unfolded hdr_def] hdr_def)
  have rh: "read_header (stream_of (hdr @ data)) = Inr (stream_of data, int w, int h)"
    unfolding hdr_def using bounds by (intro read_header_written) simp_all
  obtain row0 rows where img: "img = row0 # rows" using ne by (cases img) auto
  with len(2) pos(2) obtain p ps where row0: "row0 = p # ps" by (cases row0) auto
  have data_hd: "data = r p # g p # b p # bytes_of ps @ concat (map bytes_of rows)"
    by (simp add: data_def img row0)
  have "r (img ! 0 ! 0) = r p" by (simp add: img row0)
  with first have sk: "skip_whitespace (stream_of data) = stream_of data"
    using skip_whitespace_none [OF data_hd] by simp
  have rr: "read_rows (stream_of data) (int w) (int h) = Inr (stream_of [], img)"
    unfolding data_def using sh bounds(1) by (rule read_rows_written)
  have "readPPM (fs(filename := Regular (hdr @ data))) filename = Inr img"
    by (simp add: readPPM_def reopen rh read_pixels_def sk rr pb)
  with written show ?thesis
    by (simp add: hdr_def data_def h_def w_def)
qed

subsection \<open>The white space after the maximum value\<close>

text \<open>
  C2. The claim is that only the separator after the maximum value is consumed, so that
  pixel bytes with the value of white space are read as pixels. The code does not: the
  line with 255 is read through its newline by \<open>getline\<close>, and the loop on \<open>peek\<close> then
  drops every following byte that is white space. On the file whose one pixel is
  10, 32, 9 the header leaves exactly these three bytes, the loop drops all of them, and
  \<open>readPPM\<close> throws at row 0.
\<close>

theorem whitespace_pixels_consumed:
  "read_header (stream_of space_file) = Inr (stream_of [10, 32, 9], 1, 1) \<and>
   buf (skip_whitespace (stream_of [10, 32, 9])) = [] \<and>
   readPPM (empty_fs(''in.ppm'' := Regular space_file)) ''in.ppm'' = Inl (Raise (PixelDataError 0))"
  by code_simp

subsection \<open>Encoding an empty buffer\<close>

text \<open>
  C3 as stated fails: \<open>writePPM\<close> opens the output stream first, and opening truncates.
  The file that held three bytes is empty when the exception for the empty buffer leaves
  the function.
\<close>

theorem writePPM_empty_truncates:
  "old_fs ''out.ppm'' = Regular [1, 2, 3] \<and>
   snd (writePPM old_fs ''out.ppm'' []) = Inl (Raise EmptyImage) \<and>
   fst (writePPM old_fs ''out.ppm'' []) ''out.ppm'' = Regular []"
  by code_simp

text \<open>
  C3, amended. For a buffer of zero height or zero width \<open>writePPM\<close> writes no byte of
  header or pixels and ends in an exception. When the path cannot be opened the
  exception is \<^verbatim>\<open>Cannot open file\<close> and the file system is unchanged. Otherwise it is
  \<^verbatim>\<open>Empty image data.\<close>, the spec's \<^verbatim>\<open>InvalidInput\<close>, and the file at the path exists and is
  empty; no other path is touched.
\<close>

theorem writePPM_zero_area:
  assumes "img_height img = 0 \<or> img_width img = 0"
  shows "writePPM fs filename img =
           (if fs filename = Unopenable then (fs, Inl (Raise (CannotOpen filename)))
            else (fs(filename := Regular []), Inl (Raise EmptyImage)))"
proof -
  from assms have "img = [] \<or> (img \<noteq> [] \<and> img ! 0 = [])"
    by (cases img) (auto simp add: img_height_def img_width_def)
  then show ?thesis
    by (auto simp add: writePPM_def open_out_def Let_def split: node.splits)
qed

theorem writePPM_zero_area_witness:
  "img_width [[]] = 0 \<and>
   writePPM old_fs ''out.ppm'' [[]] = (old_fs(''out.ppm'' := Regular []), Inl (Raise EmptyImage)) \<and>
   writePPM (old_fs(''out.ppm'' := Unopenable)) ''out.ppm'' [[]] =
     (old_fs(''out.ppm'' := Unopenable), Inl (Raise (CannotOpen ''out.ppm'')))"
proof -
  have w: "img_height ([[]] :: image) = 0 \<or> img_width ([[]] :: image) = 0"
    by (simp add: img_width_def)
  have "old_fs ''out.ppm'' \<noteq> Unopenable" by (simp add: old_fs_def)
  with writePPM_zero_area [OF w, of old_fs "''out.ppm''"]
    writePPM_zero_area [OF w, of "old_fs(''out.ppm'' := Unopenable)" "''out.ppm''"]
  show ?thesis by (simp add: img_width_def)
qed

subsection \<open>Truncated pixel data\<close>

lemma skip_whitespace_length: "length (buf (skip_whitespace s)) \<le> length (buf s)"
proof (induction s rule: skip_whitespace.induct)
  case (1 s)
  show ?case
  proof (cases "peek s")
    case (Pair file1 next_char)
    show ?thesis
    proof (cases next_char)
      case None
      with Pair show ?thesis
        by (subst skip_whitespace.simps)
          (auto simp add: peek_def sentry_def split: if_splits list.splits)
    next
      case (Some c)
      with Pair have f1: "file1 = s" "good s" "buf s \<noteq> []"
        by (auto simp add: peek_def sentry_def split: if_splits list.splits)
      show ?thesis
      proof (cases "isspace c")
        case True
        have "length (buf (skip_whitespace (get file1))) \<le> length (buf (get file1))"
          by (rule 1 [OF Pair [symmetric] Some True])
        moreover have "length (buf (get file1)) \<le> length (buf s)"
          using f1 by (simp add: get_def sentry_def split: list.splits)
        ultimately show ?thesis
          using Pair Some True by (subst skip_whitespace.simps) simp
      next
        case False
        with Pair Some f1 show ?thesis by (subst skip_whitespace.simps) simp
      qed
    qed
  qed
qed

lemma read_rows_short:
  assumes "0 \<le> w" "w * 3 \<le> INT_MAX"
    and "int (length (buf s)) < w * 3 * int (length rows)"
  shows "\<exists>i\<in>set rows. for_each rows (\<lambda>i (file, img).
         if INT_MAX < w * 3 then Inl (UB SignedOverflow)
         else (case read file (nat (w * 3)) of
                 (file1, got) \<Rightarrow>
                   if int (length got) \<noteq> w * 3 then Inl (Raise (PixelDataError i))
                   else Inr (file1, img[nat i := pixels_of got])))
       (s, img) = Inl (Raise (PixelDataError i))"
  using assms(3)
proof (induction rows arbitrary: s img)
  case Nil
  then show ?case by simp
next
  case (Cons i rows)
  from Cons.prems assms(1) have pos: "0 < w * 3"
    by (smt (verit) mult_nonneg_nonneg of_nat_0_le_iff mult_le_0_iff)
  obtain file1 got where rd: "read s (nat (w * 3)) = (file1, got)" by (cases "read s (nat (w * 3))")
  show ?case
  proof (cases "int (length got) = w * 3")
    case False
    with rd assms(2) show ?thesis by simp
  next
    case True
    with rd pos have f1: "buf file1 = drop (nat (w * 3)) (buf s)" "nat (w * 3) \<le> length (buf s)"
      by (auto simp add: read_def sentry_def Let_def split: if_splits)
    with Cons.prems have "int (length (buf file1)) < w * 3 * int (length rows)"
      by (simp add: algebra_simps)
    from Cons.IH [OF this, of "img[nat i := pixels_of got]"] rd True assms(2)
    show ?thesis by auto
  qed
qed

text \<open>
  C7. Let the header of a file parse to \<open>width\<close> and \<open>height\<close>, neither negative, and let
  fewer than \<open>width * height * 3\<close> bytes follow the line of the maximum value. Then
  \<open>readPPM\<close> throws \<^verbatim>\<open>Error reading pixel data at row i\<close> for a row \<open>i\<close> of the buffer,
  the spec's \<^verbatim>\<open>FormatError\<close> for truncated data; the result is the exception and no
  buffer.
\<close>

theorem readPPM_truncated:
  assumes "open_in fs filename = Some file"
    and "read_header file = Inr (file1, w, h)"
    and "0 \<le> w" "0 \<le> h" "w * 3 \<le> INT_MAX"
    and "int (length (buf file1)) < w * h * 3"
  shows "\<exists>i. 0 \<le> i \<and> i < h \<and> readPPM fs filename = Inl (Raise (PixelDataError i))"
proof -
  have "length (buf (skip_whitespace file1)) \<le> length (buf file1)"
    by (rule skip_whitespace_length)
  with assms(4,6) have "int (length (buf (skip_whitespace file1))) < w * 3 * int (length [0..h - 1])"
    by (simp add: algebra_simps)
  from read_rows_short [OF assms(3,5) this]
  obtain i where i: "i \<in> set [0..h - 1]"
    "read_rows (skip_whitespace file1) w h = Inl (Raise (PixelDataError i))"
    unfolding read_rows_def by blast
  from i(2) assms(1-4) have "readPPM fs filename = Inl (Raise (PixelDataError i))"
    by (simp add: readPPM_def read_pixels_def Let_def)
  with i(1) show ?thesis by auto
qed

text \<open>The theorem at a file of one row of two pixels that is one byte short.\<close>

theorem readPPM_truncated_witness:
  "readPPM (empty_fs(''in.ppm'' := Regular short_file)) ''in.ppm'' = Inl (Raise (PixelDataError 0))"
proof -
  let ?fs = "empty_fs(''in.ppm'' := Regular short_file)"
  have 1: "open_in ?fs ''in.ppm'' = Some (stream_of short_file)"
    by (simp add: open_in_def)
  have 2: "read_header (stream_of short_file) = Inr (stream_of [1, 2, 3, 4, 5], 2, 1)"
    by code_simp
  have 3: "(2::int) * 3 \<le> INT_MAX" by (simp add: INT_MAX_def)
  have 4: "int (length (buf (stream_of [1, 2, 3, 4, 5]))) < 2 * 1 * 3"
    by (simp add: stream_of_def)
  from readPPM_truncated [OF 1 2 _ _ 3 4] show ?thesis by auto
qed

section \<open>Properties of the reader of print_ppm.cpp\<close>

text \<open>
  C8 as stated fails. A plain file that ends after its header is read with success, the
  one pixel left at zero. A binary file with a comment line in its header is read with
  success too: the width is read as 0 and the height is whatever the caller's variable
  held, here 8.
\<close>

theorem loadPPM_accepts_truncated:
  "loadPPM sample_fs ''t.ppm'' (main_vars 7 8) =
     Inr (True, \<lparr>image_var = [[\<lparr>r_int = 0, g_int = 0, b_int = 0\<rparr>]], width_var = 1, height_var = 1,
                 format_var = bytes ''P3''\<rparr>) \<and>
   loadPPM sample_fs ''m.ppm'' (main_vars 7 8) =
     Inr (True, \<lparr>image_var = [[], [], [], [], [], [], [], []], width_var = 0, height_var = 8,
                 format_var = bytes ''P6''\<rparr>)"
  by code_simp

text \<open>
  C8, amended. \<open>loadPPM\<close> returns \<^verbatim>\<open>false\<close> when the file cannot be opened and when the
  token read into \<^verbatim>\<open>format\<close> is neither \<^verbatim>\<open>P3\<close> nor \<^verbatim>\<open>P6\<close>, and in no other case. For a
  binary or plain file without comments, read into an empty image as \<^verbatim>\<open>main\<close> does, it
  returns \<^verbatim>\<open>true\<close> with the width, the height and the format of the header and the
  full grid of pixels.
\<close>

theorem loadPPM_reports:
  "(open_in fs filename = None \<longrightarrow> loadPPM fs filename vars = Inr (False, vars)) \<and>
   (\<forall>s. open_in fs filename = Some s \<longrightarrow>
      (if snd (extract_string s (format_var vars)) \<noteq> bytes ''P3'' \<and>
          snd (extract_string s (format_var vars)) \<noteq> bytes ''P6''
       then loadPPM fs filename vars =
              Inr (False, vars\<lparr>format_var := snd (extract_string s (format_var vars))\<rparr>)
       else \<forall>vars'. loadPPM fs filename vars \<noteq> Inr (False, vars'))) \<and>
   (fs filename = Regular content \<and> image_var vars = [] \<and>
    binary_file content tw th tm c body \<longrightarrow>
      loadPPM fs filename vars = Inr (True, loaded (bytes ''P6'') tw th (\<lambda>k. uint (body ! k)))) \<and>
   (fs filename = Regular content \<and> image_var vars = [] \<and>
    plain_file content tw th tm samples trailer \<longrightarrow>
      loadPPM fs filename vars =
        Inr (True, loaded (bytes ''P3'') tw th (\<lambda>k. token_value (samples ! k))))"
proof (intro conjI allI impI)
  fix s assume "open_in fs filename = Some s"
  then show "if snd (extract_string s (format_var vars)) \<noteq> bytes ''P3'' \<and>
          snd (extract_string s (format_var vars)) \<noteq> bytes ''P6''
       then loadPPM fs filename vars =
              Inr (False, vars\<lparr>format_var := snd (extract_string s (format_var vars))\<rparr>)
       else \<forall>vars'. loadPPM fs filename vars \<noteq> Inr (False, vars')"
    by (rule loadPPM_magic) (rule surjective_pairing)
qed (auto intro: loadPPM_unopened loadPPM_binary loadPPM_plain)

text \<open>
  The theorem at a binary file, a plain file, a file with the magic token \<^verbatim>\<open>P5\<close>, a
  missing file and the truncated plain file.
\<close>

theorem loadPPM_reports_witness:
  "loadPPM sample_fs ''a.ppm'' (main_vars 7 8) =
     Inr (True, \<lparr>image_var = [[\<lparr>r_int = 1, g_int = 2, b_int = 3\<rparr>, \<lparr>r_int = 4, g_int = 5, b_int = 6\<rparr>]],
                 width_var = 2, height_var = 1, format_var = bytes ''P6''\<rparr>) \<and>
   loadPPM sample_fs ''b.ppm'' (main_vars 7 8) =
     Inr (True, \<lparr>image_var = [[\<lparr>r_int = 10, g_int = 20, b_int = 300\<rparr>]],
                 width_var = 1, height_var = 1, format_var = bytes ''P3''\<rparr>) \<and>
   loadPPM sample_fs ''c.ppm'' (main_vars 7 8) =
     Inr (False, \<lparr>image_var = [], width_var = 7, height_var = 8, format_var = bytes ''P5''\<rparr>) \<and>
   loadPPM sample_fs ''missing.ppm'' (main_vars 7 8) = Inr (False, main_vars 7 8) \<and>
   (\<forall>vars'. loadPPM sample_fs ''t.ppm'' (main_vars 7 8) \<noteq> Inr (False, vars'))"
proof -
  let ?v = "main_vars 7 8"
  let ?tw = "([10], bytes ''2'')" and ?th = "([32], bytes ''1'')" and ?tm = "([10], bytes ''255'')"
  let ?body = "[1, 2, 3, 4, 5, 6] :: byte list"
  let ?samples = "[([10], bytes ''10''), ([32], bytes ''20''), ([32], bytes ''300'')]"
  have e: "image_var ?v = []" by (simp add: main_vars_def)
  have a: "sample_fs ''a.ppm'' = Regular binary_sample" by (simp add: sample_fs_def)
  have a_ok: "binary_file binary_sample ?tw ?th ?tm 10 ?body" by code_simp
  have a_val: "loaded (bytes ''P6'') ?tw ?th (\<lambda>k. uint (?body ! k)) =
      \<lparr>image_var = [[\<lparr>r_int = 1, g_int = 2, b_int = 3\<rparr>, \<lparr>r_int = 4, g_int = 5, b_int = 6\<rparr>]],
       width_var = 2, height_var = 1, format_var = bytes ''P6''\<rparr>"
    by code_simp
  have b: "sample_fs ''b.ppm'' = Regular plain_sample" by (simp add: sample_fs_def)
  have b_ok: "plain_file plain_sample ([10], bytes ''1'') ?th ?tm ?samples [10]" by code_simp
  have b_val: "loaded (bytes ''P3'') ([10], bytes ''1'') ?th (\<lambda>k. token_value (?samples ! k)) =
      \<lparr>image_var = [[\<lparr>r_int = 10, g_int = 20, b_int = 300\<rparr>]],
       width_var = 1, height_var = 1, format_var = bytes ''P3''\<rparr>"
    by code_simp
  have c: "open_in sample_fs ''c.ppm'' = Some (stream_of gray_sample)"
    by (simp add: sample_fs_def open_in_def)
  have c_tok: "snd (extract_string (stream_of gray_sample) (format_var ?v)) = bytes ''P5''"
    by code_simp
  have c_var: "?v\<lparr>format_var := bytes ''P5''\<rparr> =
      \<lparr>image_var = [], width_var = 7, height_var = 8, format_var = bytes ''P5''\<rparr>"
    by (simp add: main_vars_def)
  have p5: "bytes ''P5'' \<noteq> bytes ''P3''" "bytes ''P5'' \<noteq> bytes ''P6''" by (simp_all add: bytes_def)
  have missing: "open_in sample_fs ''missing.ppm'' = None"
    by (simp add: sample_fs_def open_in_def empty_fs_def)
  have t: "open_in sample_fs ''t.ppm'' = Some (stream_of truncated_sample)"
    by (simp add: sample_fs_def open_in_def)
  have t_tok: "snd (extract_string (stream_of truncated_sample) (format_var ?v)) = bytes ''P3''"
    by code_simp
  from loadPPM_reports [of sample_fs "''a.ppm''" ?v binary_sample ?tw ?th ?tm 10 ?body] a e a_ok
  have 1: "loadPPM sample_fs ''a.ppm'' ?v =
      Inr (True, loaded (bytes ''P6'') ?tw ?th (\<lambda>k. uint (?body ! k)))"
    by blast
  from loadPPM_reports [of sample_fs "''b.ppm''" ?v plain_sample "([10], bytes ''1'')" ?th ?tm _ _
      ?samples "[10]"] b e b_ok
  have 2: "loadPPM sample_fs ''b.ppm'' ?v =
      Inr (True, loaded (bytes ''P3'') ([10], bytes ''1'') ?th (\<lambda>k. token_value (?samples ! k)))"
    by blast
  from loadPPM_reports [of sample_fs "''c.ppm''" ?v] c
  have "if snd (extract_string (stream_of gray_sample) (format_var ?v)) \<noteq> bytes ''P3'' \<and>
          snd (extract_string (stream_of gray_sample) (format_var ?v)) \<noteq> bytes ''P6''
       then loadPPM sample_fs ''c.ppm'' ?v =
              Inr (False, ?v\<lparr>format_var := snd (extract_string (stream_of gray_sample) (format_var ?v))\<rparr>)
       else \<forall>vars'. loadPPM sample_fs ''c.ppm'' ?v \<noteq> Inr (False, vars')"
    by blast
  then have 3: "loadPPM sample_fs ''c.ppm'' ?v =
      Inr (False, \<lparr>image_var = [], width_var = 7, height_var = 8, format_var = bytes ''P5''\<rparr>)"
    unfolding c_tok using p5 c_var by simp
  from loadPPM_reports [of sample_fs "''missing.ppm''" ?v] missing
  have 4: "loadPPM sample_fs ''missing.ppm'' ?v = Inr (False, ?v)" by blast
  from loadPPM_reports [of sample_fs "''t.ppm''" ?v] t
  have "if snd (extract_string (stream_of truncated_sample) (format_var ?v)) \<noteq> bytes ''P3'' \<and>
          snd (extract_string (stream_of truncated_sample) (format_var ?v)) \<noteq> bytes ''P6''
       then loadPPM sample_fs ''t.ppm'' ?v =
              Inr (False, ?v\<lparr>format_var := snd (extract_string (stream_of truncated_sample) (format_var ?v))\<rparr>)
       else \<forall>vars'. loadPPM sample_fs ''t.ppm'' ?v \<noteq> Inr (False, vars')"
    by blast
  then have 5: "\<forall>vars'. loadPPM sample_fs ''t.ppm'' ?v \<noteq> Inr (False, vars')"
    unfolding t_tok by simp
  from 1 2 3 4 5 show ?thesis unfolding a_val b_val by blast
qed

end

